theory Spec2Isabelle
  imports Main "HOL-Library.Multiset"
begin

section \<open>The pin-deps command of yarn-plugin-pin-deps\<close>

text \<open>
  A shallow embedding of \<^verbatim>\<open>packages/plugin-pin-deps/sources/index.ts\<close>: the class
  \<^verbatim>\<open>PinDepsCommand\<close> with its methods \<^verbatim>\<open>createLocatorsByIdentMap\<close>,
  \<^verbatim>\<open>gatherWorkspaces\<close>, \<^verbatim>\<open>findPinnableDependencies\<close>, \<^verbatim>\<open>processDependency\<close>,
  \<^verbatim>\<open>pinDependencies\<close>, \<^verbatim>\<open>referencesPackage\<close>, \<^verbatim>\<open>isDependencyExplicitlyIncluded\<close>
  and \<^verbatim>\<open>needsPin\<close>.

  JavaScript strings are \<^typ>\<open>string\<close>; the hashes of Yarn (\<^verbatim>\<open>IdentHash\<close>,
  \<^verbatim>\<open>LocatorHash\<close>, \<^verbatim>\<open>DescriptorHash\<close>) are strings too. A value that may be
  \<^verbatim>\<open>null\<close> or \<^verbatim>\<open>undefined\<close> is an \<^typ>\<open>'a option\<close>. A JavaScript \<^verbatim>\<open>Map\<close> is
  an association list in insertion order, a \<^verbatim>\<open>Set\<close> a list without repetition in
  insertion order, because the code iterates over both. An exception is a value of
  type \<open>error\<close>, returned to the left together with the state reached when it was
  thrown.
\<close>

subsection \<open>Data of the host (Yarn)\<close>

type_synonym IdentHash = string
type_synonym LocatorHash = string
type_synonym DescriptorHash = string

text \<open>
  A \<^verbatim>\<open>Descriptor\<close>: the fields the command reads. The type of \<^verbatim>\<open>range\<close> is
  \<^verbatim>\<open>string\<close> in Yarn, but \<^verbatim>\<open>pinDependencies\<close> assigns a package's
  \<^verbatim>\<open>version\<close> to it, which is \<^verbatim>\<open>string | null\<close>: the field is an option, \<open>None\<close> for
  \<^verbatim>\<open>null\<close>.
\<close>

record descriptor =
  identHash :: IdentHash
  scope :: "string option"
  name :: string
  range_d :: "string option"

text \<open>
  A \<^verbatim>\<open>Package\<close>. \<^verbatim>\<open>structUtils.isVirtualLocator\<close> and
  \<^verbatim>\<open>structUtils.devirtualizeLocator\<close> read the locator's reference; the model keeps
  their answers in the field \<open>devirtualized\<close>: \<open>None\<close> when the locator is not virtual,
  \<open>Some h\<close> when it is, with \<open>h\<close> the \<^verbatim>\<open>locatorHash\<close> of the devirtualized locator.
\<close>

record package =
  locatorHash :: LocatorHash
  version :: "string option"
  devirtualized :: "LocatorHash option"

definition isVirtualLocator :: "package \<Rightarrow> bool" where
  "isVirtualLocator pkg = (devirtualized pkg \<noteq> None)"

definition areLocatorsEqual :: "package \<Rightarrow> package \<Rightarrow> bool" where
  "areLocatorsEqual a b = (locatorHash a = locatorHash b)"

record manifest =
  m_name :: "string option"
  dependencies :: "(IdentHash \<times> descriptor) list"
  devDependencies :: "(IdentHash \<times> descriptor) list"

record workspace =
  cwd :: string
  relativeCwd :: string
  manifest_w :: manifest

record project =
  storedResolutions :: "(DescriptorHash \<times> LocatorHash) list"
  storedDescriptors :: "(DescriptorHash \<times> descriptor) list"
  storedPackages :: "(LocatorHash \<times> package) list"
  p_workspaces :: "workspace list"

text \<open>
  The functions of the packages \<^verbatim>\<open>semver\<close> and \<^verbatim>\<open>@yarnpkg/core\<close> that the command
  calls on strings are parameters of the model. \<^verbatim>\<open>semver.satisfies\<close> returns
  \<^verbatim>\<open>false\<close> on a version or a range it cannot parse; \<^verbatim>\<open>semver.gt\<close> is only
  called on versions that have passed \<^verbatim>\<open>semver.satisfies\<close>.
\<close>

record host =
  validRange :: "string \<Rightarrow> bool"
  semverSatisfies :: "string \<Rightarrow> string \<Rightarrow> bool"
  semverGt :: "string \<Rightarrow> string \<Rightarrow> bool"

text \<open>The options of the command line; an array option that was not given is \<open>None\<close>.\<close>

record options =
  dryRun :: bool
  onlyDevDependencies :: bool
  ignoreDevDependencies :: bool
  verbose :: bool
  onlyPackages :: "string list option"
  alsoIncludePackages :: "string list option"
  onlyWorkspaces :: "string list option"

subsection \<open>Maps and sets of JavaScript\<close>

text \<open>\<^verbatim>\<open>Map.prototype.get\<close> is \<^const>\<open>map_of\<close> on a list with at most one pair per key.\<close>

fun map_set :: "('k \<times> 'v) list \<Rightarrow> 'k \<Rightarrow> 'v \<Rightarrow> ('k \<times> 'v) list" where
  "map_set [] k v = [(k, v)]"
| "map_set ((k', v') # m) k v = (if k' = k then (k, v) # m else (k', v') # map_set m k v)"

definition set_add :: "'a list \<Rightarrow> 'a \<Rightarrow> 'a list" where
  "set_add s x = (if x \<in> set s then s else s @ [x])"

subsection \<open>Rendering a reference\<close>

text \<open>
  \<^verbatim>\<open>pRef\<close> without highlighting (\<^verbatim>\<open>hi.all\<close>, \<^verbatim>\<open>hi.scope\<close>, \<^verbatim>\<open>hi.name\<close> and
  \<^verbatim>\<open>hi.range\<close> are the identity). A template literal renders \<^verbatim>\<open>null\<close> as the word.
  The scope is printed when it is truthy: neither absent nor the empty string.
\<close>

definition render :: "string option \<Rightarrow> string" where
  "render s = (case s of None \<Rightarrow> ''null'' | Some t \<Rightarrow> t)"

definition pRef :: "string option \<Rightarrow> string \<Rightarrow> string option \<Rightarrow> string" where
  "pRef sc nm rg =
     (case sc of
        None \<Rightarrow> []
      | Some s \<Rightarrow> if s = [] then [] else ''@'' @ s @ ''/'') @ nm @ '':'' @ render rg"

subsection \<open>The Descriptor Matcher\<close>

definition referencesPackage :: "string \<Rightarrow> string option \<Rightarrow> string \<Rightarrow> string option \<Rightarrow> bool" where
  "referencesPackage refPkg sc nm rg =
     (let candidatePkg = pRef sc nm rg;
          exactMatch = (refPkg = candidatePkg);
          rangeMatch = (refPkg \<in> set ['':'' @ render rg, ''*:'' @ render rg])
      in exactMatch \<or> rangeMatch)"

definition isDependencyExplicitlyIncluded ::
  "options \<Rightarrow> string option \<Rightarrow> string \<Rightarrow> string option \<Rightarrow> bool" where
  "isDependencyExplicitlyIncluded opt sc nm rg =
     (let included = list_ex (\<lambda>includeRef. referencesPackage includeRef sc nm rg)
                       (case alsoIncludePackages opt of None \<Rightarrow> [] | Some l \<Rightarrow> l);
          selected = list_ex (\<lambda>selectRef. referencesPackage selectRef sc nm rg)
                       (case onlyPackages opt of None \<Rightarrow> [] | Some l \<Rightarrow> l)
      in included \<or> selected)"

text \<open>
  The call in \<^verbatim>\<open>processDependency\<close> (line 400) passes \<^verbatim>\<open>{ name, range }\<close>: the scope
  of the object received by \<^verbatim>\<open>isDependencyExplicitlyIncluded\<close> is \<^verbatim>\<open>undefined\<close>.
\<close>

definition explicitlyIncluded_of :: "options \<Rightarrow> descriptor \<Rightarrow> bool" where
  "explicitlyIncluded_of opt dependency =
     isDependencyExplicitlyIncluded opt None (name dependency) (range_d dependency)"

definition needsPin :: "host \<Rightarrow> string \<Rightarrow> bool" where
  "needsPin H rg = (if \<not> validRange H rg then False else True)"

subsection \<open>The report\<close>

text \<open>
  The \<^verbatim>\<open>StreamReport\<close> is the list of what was reported, in order, and the set of
  texts \<^verbatim>\<open>reportWarningOnce\<close> has seen.
\<close>

datatype log_line =
  Warning string
| Info string
| Json "(string \<times> (string \<times> string option) list) list"

record report =
  lines :: "log_line list"
  reportedWarnings :: "string list"

definition reportWarning :: "string \<Rightarrow> report \<Rightarrow> report" where
  "reportWarning msg r = r\<lparr>lines := lines r @ [Warning msg]\<rparr>"

definition reportInfo :: "string \<Rightarrow> report \<Rightarrow> report" where
  "reportInfo msg r = r\<lparr>lines := lines r @ [Info msg]\<rparr>"

definition reportWarningOnce :: "string \<Rightarrow> report \<Rightarrow> report" where
  "reportWarningOnce msg r =
     (if msg \<in> set (reportedWarnings r) then r
      else reportWarning msg (r\<lparr>reportedWarnings := reportedWarnings r @ [msg]\<rparr>))"

definition logVerboseWarning :: "options \<Rightarrow> string \<Rightarrow> string \<Rightarrow> report \<Rightarrow> report" where
  "logVerboseWarning opt prefix msg r =
     (if \<not> verbose opt then r else reportWarning (prefix @ '' '' @ msg) r)"

definition logVerboseInfo :: "options \<Rightarrow> string \<Rightarrow> string \<Rightarrow> report \<Rightarrow> report" where
  "logVerboseInfo opt prefix msg r =
     (if \<not> verbose opt then r else reportInfo (prefix @ '' '' @ msg) r)"

definition green :: "string \<Rightarrow> string" where
  "green t = CHR 0x1B # ''[32m'' @ t @ CHR 0x1B # ''[0m''"

definition yellow :: "string \<Rightarrow> string" where
  "yellow t = CHR 0x1B # ''[33m'' @ t @ CHR 0x1B # ''[0m''"

text \<open>A number in a template literal: its decimal digits.\<close>

fun show_nat :: "nat \<Rightarrow> string" where
  "show_nat n =
     (if n < 10 then [''0123456789'' ! n]
      else show_nat (n div 10) @ [''0123456789'' ! (n mod 10)])"

declare show_nat.simps [simp del]

subsection \<open>Sorting an array\<close>

text \<open>
  \<^verbatim>\<open>Array.prototype.sort\<close> belongs to the engine. Yarn runs on Node.js, whose engine
  sorts an array of fewer than 64 elements as one run: \<^verbatim>\<open>CountAndMakeRun\<close> finds the
  longest prefix that is non-descending, or strictly descending (then reversed), for
  the comparator, and \<^verbatim>\<open>BinaryInsertionSort\<close> inserts the other elements one by one
  at the place a binary search finds. The model is that algorithm; the sets of
  candidates of one package are far smaller than 64.
\<close>

fun count_run :: "bool \<Rightarrow> ('a \<Rightarrow> 'a \<Rightarrow> int) \<Rightarrow> 'a \<Rightarrow> 'a list \<Rightarrow> nat" where
  "count_run isDescending c previousElement [] = 0"
| "count_run isDescending c previousElement (currentElement # rest) =
     (let order = c currentElement previousElement
      in if (if isDescending then order \<ge> 0 else order < 0) then 0
         else Suc (count_run isDescending c currentElement rest))"

function binarySearch :: "('a \<Rightarrow> 'a \<Rightarrow> int) \<Rightarrow> 'a \<Rightarrow> 'a list \<Rightarrow> nat \<Rightarrow> nat \<Rightarrow> nat" where
  "binarySearch c pivot xs left right =
     (if left < right then
        (let mid = left + (right - left) div 2
         in if c pivot (xs ! mid) < 0 then binarySearch c pivot xs left mid
            else binarySearch c pivot xs (mid + 1) right)
      else left)"
  by pat_completeness auto
termination
  by (relation "measure (\<lambda>(c, pivot, xs, left, right). right - left)") auto

declare binarySearch.simps [simp del]

fun binaryInsertionSort :: "('a \<Rightarrow> 'a \<Rightarrow> int) \<Rightarrow> 'a list \<Rightarrow> 'a list \<Rightarrow> 'a list" where
  "binaryInsertionSort c work [] = work"
| "binaryInsertionSort c work (pivot # rest) =
     (let left = binarySearch c pivot work 0 (length work)
      in binaryInsertionSort c (take left work @ pivot # drop left work) rest)"

definition array_sort :: "('a \<Rightarrow> 'a \<Rightarrow> int) \<Rightarrow> 'a list \<Rightarrow> 'a list" where
  "array_sort c xs =
     (case xs of
        elementHigh # elementLow # rest \<Rightarrow>
          (let isDescending = (c elementLow elementHigh < 0);
               runLength = 2 + count_run isDescending c elementLow rest;
               run = (if isDescending then rev (take runLength xs) else take runLength xs)
           in binaryInsertionSort c run (drop runLength xs))
      | _ \<Rightarrow> xs)"

subsection \<open>The Candidate Selector: \<^verbatim>\<open>processDependency\<close>\<close>

text \<open>
  The exceptions: the \<^verbatim>\<open>TypeError\<close> the code throws itself when a locator has
  no package (line 435), and the \<^verbatim>\<open>TypeError\<close>s of the engine: when a property is
  read from \<^verbatim>\<open>undefined\<close> or \<^verbatim>\<open>null\<close> (the property is named), when a loop
  iterates over \<^verbatim>\<open>undefined\<close>, and when \<^verbatim>\<open>Object.assign\<close> gets \<^verbatim>\<open>undefined\<close>
  as its target.
\<close>

datatype error =
  CantFindPackage LocatorHash
| UndefinedRead string
| UndefinedNotIterable
| AssignToUndefined

text \<open>
  \<^verbatim>\<open>range.match(/^(.*)$/)\<close>: the dot matches every character but a line
  terminator (LF, CR, U+2028, U+2029; the last two as their UTF-8 bytes), so the match
  is \<^verbatim>\<open>null\<close> when the range holds one, and its group 1 is the whole range otherwise.
\<close>

fun has_line_terminator :: "string \<Rightarrow> bool" where
  "has_line_terminator [] = False"
| "has_line_terminator (c # cs) =
     (c = CHR 0x0A \<or> c = CHR 0x0D
      \<or> (c = CHR 0xE2 \<and> (take 2 cs = [CHR 0x80, CHR 0xA8] \<or> take 2 cs = [CHR 0x80, CHR 0xA9]))
      \<or> has_line_terminator cs)"

definition semverMatch_of :: "string \<Rightarrow> string option" where
  "semverMatch_of rg = (if has_line_terminator rg then None else Some rg)"

text \<open>The callback of \<^verbatim>\<open>map\<close> (lines 432-445).\<close>

definition sourcePackage_of :: "project \<Rightarrow> LocatorHash \<Rightarrow> error + package option" where
  "sourcePackage_of P h =
     (case map_of (storedPackages P) h of
        None \<Rightarrow> Inl (CantFindPackage h)
      | Some pkg \<Rightarrow>
          (case devirtualized pkg of
             Some sourceLocatorHash \<Rightarrow> Inr (map_of (storedPackages P) sourceLocatorHash)
           | None \<Rightarrow> Inr (Some pkg)))"

fun map_throw :: "('a \<Rightarrow> error + 'b) \<Rightarrow> 'a list \<Rightarrow> error + 'b list" where
  "map_throw f [] = Inr []"
| "map_throw f (x # xs) =
     (case f x of
        Inl e \<Rightarrow> Inl e
      | Inr y \<Rightarrow> (case map_throw f xs of Inl e \<Rightarrow> Inl e | Inr ys \<Rightarrow> Inr (y # ys)))"

text \<open>The callback of \<^verbatim>\<open>filter\<close> (lines 446-456).\<close>

definition keep_candidate :: "host \<Rightarrow> bool \<Rightarrow> string option \<Rightarrow> package option \<Rightarrow> bool" where
  "keep_candidate H explicitlyIncluded semverMatch sourcePackage =
     (case sourcePackage of
        None \<Rightarrow> False
      | Some p \<Rightarrow>
          (case version p of
             None \<Rightarrow> False
           | Some v \<Rightarrow>
               (if explicitlyIncluded then True
                else (case semverMatch of None \<Rightarrow> False | Some rg \<Rightarrow> semverSatisfies H v rg))))"

text \<open>
  The comparator of \<^verbatim>\<open>sort\<close> (lines 457-463). The filter has kept only packages
  with a version, so the last case is never reached.
\<close>

definition compare_candidates :: "host \<Rightarrow> bool \<Rightarrow> package \<Rightarrow> package \<Rightarrow> int" where
  "compare_candidates H explicitlyIncluded a b =
     (if explicitlyIncluded then - 1
      else (case (version a, version b) of
              (Some va, Some vb) \<Rightarrow> if semverGt H va vb then - 1 else 1
            | _ \<Rightarrow> 1))"

text \<open>Lines 431-463: the candidates, filtered and sorted.\<close>

definition candidates_of ::
  "host \<Rightarrow> project \<Rightarrow> bool \<Rightarrow> string \<Rightarrow> LocatorHash list \<Rightarrow> error + package list" where
  "candidates_of H P explicitlyIncluded rg locatorHashes =
     (case map_throw (sourcePackage_of P) locatorHashes of
        Inl e \<Rightarrow> Inl e
      | Inr sourcePackages \<Rightarrow>
          Inr (array_sort (compare_candidates H explicitlyIncluded)
                 (List.map_filter (\<lambda>sp. if keep_candidate H explicitlyIncluded (semverMatch_of rg) sp
                                          then sp else None) sourcePackages)))"

text \<open>Lines 467-476: all pairs of candidates, and how many are not the same locator.\<close>

fun candidatePairs :: "'a list \<Rightarrow> ('a \<times> 'a) list" where
  "candidatePairs [] = []"
| "candidatePairs (v # ws) = map (\<lambda>w. (v, w)) ws @ candidatePairs ws"

definition numDupes_of :: "package list \<Rightarrow> nat" where
  "numDupes_of candidates =
     length (filter (\<lambda>(candidateA, candidateB). \<not> areLocatorsEqual candidateA candidateB)
               (candidatePairs candidates))"

definition duplicate_message :: "string \<Rightarrow> nat \<Rightarrow> nat \<Rightarrow> string \<Rightarrow> string" where
  "duplicate_message depPkgRef n numDupes workspaceCwd =
     ''Possible duplicate: '' @ depPkgRef @ '' has '' @ show_nat n @ '' candidates (''
       @ show_nat numDupes @ '' conflicting pairs) in workspace '' @ workspaceCwd"

definition missing_message :: "string \<Rightarrow> string \<Rightarrow> string" where
  "missing_message depPkgRef workspaceCwd =
     ''Missing locator: '' @ depPkgRef @ '', in workspace '' @ workspaceCwd"

text \<open>
  Lines 427-494: the value of \<^verbatim>\<open>pinTo\<close> (\<open>None\<close> for \<^verbatim>\<open>undefined\<close>) and the report,
  or the exception with the report at that moment.
\<close>

definition pinTo_of ::
  "host \<Rightarrow> project \<Rightarrow> (IdentHash \<times> LocatorHash list) list \<Rightarrow> bool \<Rightarrow> string \<Rightarrow> string \<Rightarrow>
   string \<Rightarrow> IdentHash \<Rightarrow> report \<Rightarrow> (error \<times> report) + (package option \<times> report)" where
  "pinTo_of H P locatorsByIdent explicitlyIncluded depPkgRef workspaceCwd rg ih r =
     (case map_of locatorsByIdent ih of
        None \<Rightarrow> Inr (None, reportWarning (missing_message depPkgRef workspaceCwd) r)
      | Some locatorHashes \<Rightarrow>
          if length locatorHashes > 1 then
            (case candidates_of H P explicitlyIncluded rg locatorHashes of
               Inl e \<Rightarrow> Inl (e, r)
             | Inr candidates \<Rightarrow>
                 (let r' = (if length candidates > 1 \<and> numDupes_of candidates > 0
                            then reportWarningOnce
                                   (duplicate_message depPkgRef (length candidates)
                                      (numDupes_of candidates) workspaceCwd) r
                            else r)
                  in case candidates of
                       [] \<Rightarrow> Inl (UndefinedRead ''locatorHash'', r')
                     | c0 # _ \<Rightarrow> Inr (map_of (storedPackages P) (locatorHash c0), r')))
          else if length locatorHashes = 1 then
            Inr (map_of (storedPackages P) (hd locatorHashes), r)
          else Inr (None, reportWarning (missing_message depPkgRef workspaceCwd) r))"

text \<open>
  What \<^verbatim>\<open>processDependency\<close> changes: the report, and the two maps of the workspace
  it receives in \<^verbatim>\<open>opts\<close>. (\<^verbatim>\<open>opts.isDevDependency\<close> is not read.)
\<close>

record pd_state =
  log_r :: report
  pinnableInWorkspace :: "(IdentHash \<times> package) list"
  reportablePinsInWorkspace :: "(string \<times> string option) list"

definition processDependency ::
  "host \<Rightarrow> options \<Rightarrow> project \<Rightarrow> (IdentHash \<times> LocatorHash list) list \<Rightarrow> string \<Rightarrow>
   IdentHash \<times> descriptor \<Rightarrow> pd_state \<Rightarrow> (error \<times> pd_state) + pd_state" where
  "processDependency H opt P locatorsByIdent workspaceCwd entry s =
     (let ih = fst entry; dependency = snd entry;
          depPkgRef = pRef (scope dependency) (name dependency) (range_d dependency);
          explicitlyIncluded = explicitlyIncluded_of opt dependency
      in case range_d dependency of
           None \<Rightarrow> Inl (UndefinedRead ''indexOf'', s)
         | Some rg \<Rightarrow>
             if \<not> needsPin H rg \<and> \<not> explicitlyIncluded then
               Inr (s\<lparr>log_r := logVerboseWarning opt workspaceCwd (''Skip: '' @ depPkgRef) (log_r s)\<rparr>)
             else
               (let r1 = (if \<not> needsPin H rg
                          then logVerboseInfo opt workspaceCwd (''Include: '' @ depPkgRef) (log_r s)
                          else log_r s)
                in if (case onlyPackages opt of None \<Rightarrow> False | Some l \<Rightarrow> depPkgRef \<notin> set l) then
                     Inr (s\<lparr>log_r := logVerboseWarning opt workspaceCwd (''Omit: '' @ depPkgRef) r1\<rparr>)
                   else
                     (case pinTo_of H P locatorsByIdent explicitlyIncluded depPkgRef workspaceCwd rg ih r1 of
                        Inl (e, r2) \<Rightarrow> Inl (e, s\<lparr>log_r := r2\<rparr>)
                      | Inr (None, r2) \<Rightarrow> Inl (UndefinedRead ''version'', s\<lparr>log_r := r2\<rparr>)
                      | Inr (Some pinTo, r2) \<Rightarrow>
                          if version pinTo = Some rg then
                            Inr (s\<lparr>log_r :=
                                   (if explicitlyIncluded
                                    then reportInfo (yellow ''-'' @ '' Already pinned: '' @ depPkgRef) r2
                                    else logVerboseWarning opt workspaceCwd
                                           (''already pinned '' @ depPkgRef @ '' to '' @ render (version pinTo)) r2)\<rparr>)
                          else
                            Inr (s\<lparr>log_r := logVerboseInfo opt workspaceCwd
                                              (''will pin '' @ depPkgRef @ '' to '' @ render (version pinTo)
                                                 @ '' in '' @ workspaceCwd) r2,
                                    pinnableInWorkspace := map_set (pinnableInWorkspace s) ih pinTo,
                                    reportablePinsInWorkspace :=
                                      map_set (reportablePinsInWorkspace s) depPkgRef (version pinTo)\<rparr>))))"

subsection \<open>The Resolution Index: \<^verbatim>\<open>createLocatorsByIdentMap\<close>\<close>

fun createLocatorsByIdentMap_loop ::
  "project \<Rightarrow> (DescriptorHash \<times> LocatorHash) list \<Rightarrow> (IdentHash \<times> LocatorHash list) list \<Rightarrow>
   error + (IdentHash \<times> LocatorHash list) list" where
  "createLocatorsByIdentMap_loop P [] locatorsByIdent = Inr locatorsByIdent"
| "createLocatorsByIdentMap_loop P ((descriptorHash, lh) # rest) locatorsByIdent =
     (case map_of (storedDescriptors P) descriptorHash of
        None \<Rightarrow> Inl (UndefinedRead ''identHash'')
      | Some descriptor \<Rightarrow>
          (let key = identHash descriptor
           in case map_of locatorsByIdent key of
                None \<Rightarrow> createLocatorsByIdentMap_loop P rest (map_set locatorsByIdent key [lh])
              | Some locators \<Rightarrow>
                  createLocatorsByIdentMap_loop P rest
                    (map_set locatorsByIdent key (set_add locators lh))))"

definition createLocatorsByIdentMap :: "project \<Rightarrow> error + (IdentHash \<times> LocatorHash list) list" where
  "createLocatorsByIdentMap P = createLocatorsByIdentMap_loop P (storedResolutions P) []"

subsection \<open>The state of the command\<close>

text \<open>
  The fields of \<^verbatim>\<open>this\<close> that the methods write, and \<open>disk\<close>: the manifests as
  \<^verbatim>\<open>workspace.persistManifest()\<close> has written them, by the path of the file.
\<close>

record cmd_state =
  log_c :: report
  workspaces :: "workspace list"
  locatorsByIdent_c :: "(IdentHash \<times> LocatorHash list) list"
  pinnableByWorkspaceCwd :: "(string \<times> (IdentHash \<times> package) list) list"
  reportablePinsByWorkspaceCwd :: "(string \<times> (string \<times> string option) list) list"
  disk :: "(string \<times> manifest) list"

subsection \<open>\<^verbatim>\<open>gatherWorkspaces\<close>\<close>

fun join_or :: "string list \<Rightarrow> string" where
  "join_or [] = []"
| "join_or [x] = x"
| "join_or (x # y # ys) = x @ '' or '' @ join_or (y # ys)"

definition possibleWorkspaceRefs_of :: "workspace \<Rightarrow> string list" where
  "possibleWorkspaceRefs_of w =
     filter (\<lambda>pwr. pwr \<noteq> [])
       ([cwd w, relativeCwd w] @ (case m_name (manifest_w w) of None \<Rightarrow> [] | Some n \<Rightarrow> [n]))"

text \<open>
  The callback of \<^verbatim>\<open>filter\<close> (lines 168-198): whether the workspace is included, and
  the report. Both messages read \<^verbatim>\<open>workspace.manifest.name!.name\<close>, which throws
  when the manifest has no name.
\<close>

definition include_workspace ::
  "options \<Rightarrow> string list \<Rightarrow> workspace \<Rightarrow> report \<Rightarrow> (error \<times> report) + (bool \<times> report)" where
  "include_workspace opt given w r =
     (let possibleWorkspaceRefs = possibleWorkspaceRefs_of w;
          incl = list_ex (\<lambda>givenWorkspaceRef. givenWorkspaceRef \<in> set possibleWorkspaceRefs) given
      in case m_name (manifest_w w) of
           None \<Rightarrow> Inl (UndefinedRead ''name'', r)
         | Some n \<Rightarrow>
             if incl then
               Inr (True, reportWarning
                            (green [CHR 0xE2, CHR 0x9C, CHR 0x93] @ '' Including workspace '' @ n
                               @ '' at '' @ cwd w) r)
             else
               Inr (False, logVerboseWarning opt ''gatherWorkspaces''
                             (yellow ''x'' @ '' Excluding workspace '' @ n @ '', no match for ''
                                @ join_or (map (\<lambda>x. [CHR 0x27] @ x @ [CHR 0x27]) possibleWorkspaceRefs)) r))"

fun filter_workspaces ::
  "options \<Rightarrow> string list \<Rightarrow> workspace list \<Rightarrow> report \<Rightarrow> (error \<times> report) + (workspace list \<times> report)" where
  "filter_workspaces opt given [] r = Inr ([], r)"
| "filter_workspaces opt given (w # ws) r =
     (case include_workspace opt given w r of
        Inl x \<Rightarrow> Inl x
      | Inr (incl, r') \<Rightarrow>
          (case filter_workspaces opt given ws r' of
             Inl x \<Rightarrow> Inl x
           | Inr (kept, r'') \<Rightarrow> Inr (if incl then w # kept else kept, r'')))"

definition gatherWorkspaces ::
  "options \<Rightarrow> project \<Rightarrow> report \<Rightarrow> (error \<times> report) + (workspace list \<times> report)" where
  "gatherWorkspaces opt P r =
     (case onlyWorkspaces opt of
        None \<Rightarrow> Inr (p_workspaces P, r)
      | Some given \<Rightarrow>
          if length given = 0 then Inr (p_workspaces P, r)
          else filter_workspaces opt given (p_workspaces P) r)"

subsection \<open>The Pin Planner: \<^verbatim>\<open>findPinnableDependencies\<close>\<close>

fun processDependencies ::
  "host \<Rightarrow> options \<Rightarrow> project \<Rightarrow> (IdentHash \<times> LocatorHash list) list \<Rightarrow> string \<Rightarrow>
   (IdentHash \<times> descriptor) list \<Rightarrow> pd_state \<Rightarrow> (error \<times> pd_state) + pd_state" where
  "processDependencies H opt P L workspaceCwd [] s = Inr s"
| "processDependencies H opt P L workspaceCwd (entry # rest) s =
     (case processDependency H opt P L workspaceCwd entry s of
        Inl x \<Rightarrow> Inl x
      | Inr s' \<Rightarrow> processDependencies H opt P L workspaceCwd rest s')"

text \<open>The body of the loop over the workspaces (lines 345-376), from fresh maps.\<close>

definition findPinnableInWorkspace ::
  "host \<Rightarrow> options \<Rightarrow> project \<Rightarrow> (IdentHash \<times> LocatorHash list) list \<Rightarrow> workspace \<Rightarrow> report \<Rightarrow>
   (error \<times> pd_state) + pd_state" where
  "findPinnableInWorkspace H opt P L w r =
     (let s0 = \<lparr>log_r = r, pinnableInWorkspace = [], reportablePinsInWorkspace = []\<rparr>
      in case (if \<not> onlyDevDependencies opt
               then processDependencies H opt P L (cwd w) (dependencies (manifest_w w)) s0
               else Inr s0) of
           Inl x \<Rightarrow> Inl x
         | Inr s1 \<Rightarrow>
             if onlyDevDependencies opt \<or> \<not> ignoreDevDependencies opt
             then processDependencies H opt P L (cwd w) (devDependencies (manifest_w w)) s1
             else Inr s1)"

definition store_workspace_plan :: "workspace \<Rightarrow> pd_state \<Rightarrow> cmd_state \<Rightarrow> cmd_state" where
  "store_workspace_plan w s st =
     st\<lparr>log_c := log_r s,
        pinnableByWorkspaceCwd := map_set (pinnableByWorkspaceCwd st) (cwd w) (pinnableInWorkspace s),
        reportablePinsByWorkspaceCwd :=
          map_set (reportablePinsByWorkspaceCwd st) (cwd w) (reportablePinsInWorkspace s)\<rparr>"

fun findPinnable_loop ::
  "host \<Rightarrow> options \<Rightarrow> project \<Rightarrow> workspace list \<Rightarrow> cmd_state \<Rightarrow> (error \<times> cmd_state) + cmd_state" where
  "findPinnable_loop H opt P [] st = Inr st"
| "findPinnable_loop H opt P (w # ws) st =
     (case findPinnableInWorkspace H opt P (locatorsByIdent_c st) w (log_c st) of
        Inl (e, s) \<Rightarrow> Inl (e, store_workspace_plan w s st)
      | Inr s \<Rightarrow> findPinnable_loop H opt P ws (store_workspace_plan w s st))"

definition findPinnableDependencies ::
  "host \<Rightarrow> options \<Rightarrow> project \<Rightarrow> cmd_state \<Rightarrow> (error \<times> cmd_state) + cmd_state" where
  "findPinnableDependencies H opt P st =
     findPinnable_loop H opt P (workspaces st)
       (st\<lparr>pinnableByWorkspaceCwd := [], reportablePinsByWorkspaceCwd := []\<rparr>)"

subsection \<open>The Plan Applier: \<^verbatim>\<open>pinDependencies\<close>\<close>

text \<open>\<^verbatim>\<open>pRef\<close> with \<^verbatim>\<open>opts.highlight = { range: hl }\<close>.\<close>

definition pRef_hl :: "(string \<Rightarrow> string) \<Rightarrow> string option \<Rightarrow> string \<Rightarrow> string option \<Rightarrow> string" where
  "pRef_hl hl sc nm rg =
     (case sc of
        None \<Rightarrow> []
      | Some s \<Rightarrow> if s = [] then [] else ''@'' @ s @ ''/'') @ nm @ '':'' @ hl (render rg)"

text \<open>\<^verbatim>\<open>ppath.join(workspaceCwd, Manifest.fileName)\<close>, for a directory without a final slash.\<close>

definition manifestPath_of :: "string \<Rightarrow> string" where
  "manifestPath_of workspaceCwd = workspaceCwd @ ''/package.json''"

text \<open>
  The body of the inner loop (lines 218-263) on one entry of the plan: the manifest,
  the report and \<^verbatim>\<open>numPinned\<close>.
\<close>

definition pin_entry ::
  "string \<Rightarrow> IdentHash \<times> package \<Rightarrow> manifest \<times> report \<times> nat \<Rightarrow>
   (error \<times> manifest \<times> report \<times> nat) + (manifest \<times> report \<times> nat)" where
  "pin_entry manifestPath entry acc =
     (case acc of
        (m, r, numPinned) \<Rightarrow>
          (let ih = fst entry; pkg = snd entry;
               curDependency = map_of (dependencies m) ih;
               curDevDependency = map_of (devDependencies m) ih;
               curValue = (case curDependency of Some d \<Rightarrow> Some d | None \<Rightarrow> curDevDependency)
           in case curValue of
                None \<Rightarrow> Inl (AssignToUndefined, m, r, numPinned)
              | Some oldValue \<Rightarrow>
                  (let r1 = (if curDependency \<noteq> None \<and> curDevDependency \<noteq> None
                             then reportWarning
                                    (''Possible package.json conflict between devDependencies and dependencies in ''
                                       @ name oldValue @ '' at '' @ manifestPath) r
                             else r)
                   in if range_d oldValue = version pkg then Inr (m, r1, numPinned)
                      else
                        (let newDependency = oldValue\<lparr>range_d := version pkg\<rparr>;
                             m' = (if curDependency \<noteq> None
                                   then m\<lparr>dependencies := map_set (dependencies m) ih newDependency\<rparr>
                                   else m\<lparr>devDependencies := map_set (devDependencies m) ih newDependency\<rparr>);
                             r2 = reportInfo
                                    (green [CHR 0xE2, CHR 0x86, CHR 0x92] @ '' Pin ''
                                       @ pRef_hl yellow (scope oldValue) (name oldValue) (range_d oldValue)
                                       @ [CHR 0x20, CHR 0xE2, CHR 0x86, CHR 0x92, CHR 0x20]
                                       @ pRef_hl green (scope newDependency) (name newDependency)
                                           (range_d newDependency)
                                       @ '' ('' @ manifestPath @ '')'') r1
                         in Inr (m', r2, numPinned + 1)))))"

fun pin_entries ::
  "string \<Rightarrow> (IdentHash \<times> package) list \<Rightarrow> manifest \<times> report \<times> nat \<Rightarrow>
   (error \<times> manifest \<times> report \<times> nat) + (manifest \<times> report \<times> nat)" where
  "pin_entries manifestPath [] acc = Inr acc"
| "pin_entries manifestPath (entry # rest) acc =
     (case pin_entry manifestPath entry acc of
        Inl x \<Rightarrow> Inl x
      | Inr acc' \<Rightarrow> pin_entries manifestPath rest acc')"

text \<open>
  The body of the outer loop (lines 212-280) for one workspace: the workspace with its
  manifest after the pins, the report and the disk.
\<close>

definition pin_workspace ::
  "options \<Rightarrow> (string \<times> (IdentHash \<times> package) list) list \<Rightarrow> workspace \<Rightarrow>
   report \<times> (string \<times> manifest) list \<Rightarrow>
   (error \<times> workspace \<times> report \<times> (string \<times> manifest) list)
   + (workspace \<times> report \<times> (string \<times> manifest) list)" where
  "pin_workspace opt plan w acc =
     (case acc of
        (r, d) \<Rightarrow>
          (let manifestPath = manifestPath_of (cwd w)
           in case map_of plan (cwd w) of
                None \<Rightarrow> Inl (UndefinedNotIterable, w, r, d)
              | Some needsPinning \<Rightarrow>
                  (case pin_entries manifestPath needsPinning (manifest_w w, r, 0) of
                     Inl (e, m, r', n) \<Rightarrow> Inl (e, w\<lparr>manifest_w := m\<rparr>, r', d)
                   | Inr (m, r', numPinned) \<Rightarrow>
                       (let w' = w\<lparr>manifest_w := m\<rparr>
                        in if numPinned > 0 then
                             Inr (w',
                                  reportInfo
                                    (green [CHR 0xE2, CHR 0x9C, CHR 0x93] @ '' Pinned '' @ show_nat numPinned
                                       @ '' and '' @ (if dryRun opt then ''saved[DRY RUN]'' else ''saved'')
                                       @ '' to '' @ manifestPath) r',
                                  if \<not> dryRun opt then map_set d manifestPath m else d)
                           else Inr (w', r', d)))))"

text \<open>
  The outer loop: \<open>visited\<close> holds the workspaces already visited, \<open>ws\<close> those still
  to visit.
\<close>

fun pin_workspaces ::
  "options \<Rightarrow> (string \<times> (IdentHash \<times> package) list) list \<Rightarrow> workspace list \<Rightarrow> workspace list \<Rightarrow>
   report \<times> (string \<times> manifest) list \<Rightarrow>
   (error \<times> workspace list \<times> report \<times> (string \<times> manifest) list)
   + (workspace list \<times> report \<times> (string \<times> manifest) list)" where
  "pin_workspaces opt plan visited [] acc = Inr (visited, acc)"
| "pin_workspaces opt plan visited (w # ws) acc =
     (case pin_workspace opt plan w acc of
        Inl (e, w', r, d) \<Rightarrow> Inl (e, visited @ w' # ws, r, d)
      | Inr (w', acc') \<Rightarrow> pin_workspaces opt plan (visited @ [w']) ws acc')"

definition pinDependencies :: "options \<Rightarrow> cmd_state \<Rightarrow> (error \<times> cmd_state) + cmd_state" where
  "pinDependencies opt st =
     (let r0 = (log_c st)\<lparr>lines := lines (log_c st) @ [Json (reportablePinsByWorkspaceCwd st)]\<rparr>
      in case pin_workspaces opt (pinnableByWorkspaceCwd st) [] (workspaces st) (r0, disk st) of
           Inl (e, ws, r, d) \<Rightarrow> Inl (e, st\<lparr>log_c := r, workspaces := ws, disk := d\<rparr>)
         | Inr (ws, r, d) \<Rightarrow> Inr (st\<lparr>log_c := r, workspaces := ws, disk := d\<rparr>))"

subsection \<open>The command: \<^verbatim>\<open>execute\<close>\<close>

text \<open>
  The callback given to \<^verbatim>\<open>StreamReport.start\<close> (lines 128-134), on a project that
  \<^verbatim>\<open>resolveEverything\<close> has resolved and a disk \<open>d\<close>.
\<close>

definition execute ::
  "host \<Rightarrow> options \<Rightarrow> project \<Rightarrow> (string \<times> manifest) list \<Rightarrow> (error \<times> cmd_state) + cmd_state" where
  "execute H opt P d =
     (let st0 = \<lparr>log_c = \<lparr>lines = [], reportedWarnings = []\<rparr>, workspaces = [],
                 locatorsByIdent_c = [], pinnableByWorkspaceCwd = [],
                 reportablePinsByWorkspaceCwd = [], disk = d\<rparr>
      in case gatherWorkspaces opt P (log_c st0) of
           Inl (e, r) \<Rightarrow> Inl (e, st0\<lparr>log_c := r\<rparr>)
         | Inr (ws, r) \<Rightarrow>
             (let st1 = st0\<lparr>log_c := r, workspaces := ws\<rparr>
              in case createLocatorsByIdentMap P of
                   Inl e \<Rightarrow> Inl (e, st1)
                 | Inr L \<Rightarrow>
                     (case findPinnableDependencies H opt P (st1\<lparr>locatorsByIdent_c := L\<rparr>) of
                        Inl x \<Rightarrow> Inl x
                      | Inr st2 \<Rightarrow> pinDependencies opt st2)))"

subsection \<open>A fragment of the package \<^verbatim>\<open>semver\<close>\<close>

text \<open>
  For concrete inputs the parameters are instantiated with the answers of the package
  \<^verbatim>\<open>semver\<close> and of \<^verbatim>\<open>semverUtils.validRange\<close> on two forms of strings: a plain
  version \<^verbatim>\<open>MAJOR.MINOR.PATCH\<close> (numeric identifiers without leading zeros) and a
  caret range \<^verbatim>\<open>^MAJOR.MINOR.PATCH\<close>. Every concrete input below uses these two
  forms, or a word such as \<^verbatim>\<open>canary\<close>, which is no range for the package either.
\<close>

definition digit_of :: "char \<Rightarrow> nat option" where
  "digit_of c =
     map_of [(CHR ''0'', 0), (CHR ''1'', 1), (CHR ''2'', 2), (CHR ''3'', 3), (CHR ''4'', 4),
             (CHR ''5'', 5), (CHR ''6'', 6), (CHR ''7'', 7), (CHR ''8'', 8), (CHR ''9'', 9)] c"

fun numeric_identifier_acc :: "nat \<Rightarrow> string \<Rightarrow> nat option" where
  "numeric_identifier_acc n [] = Some n"
| "numeric_identifier_acc n (c # cs) =
     (case digit_of c of None \<Rightarrow> None | Some d \<Rightarrow> numeric_identifier_acc (10 * n + d) cs)"

definition numeric_identifier :: "string \<Rightarrow> nat option" where
  "numeric_identifier s =
     (if s = [] \<or> (length s > 1 \<and> hd s = CHR ''0'') then None else numeric_identifier_acc 0 s)"

fun split_dots :: "string \<Rightarrow> string list" where
  "split_dots [] = [[]]"
| "split_dots (c # cs) =
     (if c = CHR ''.'' then [] # split_dots cs
      else (case split_dots cs of [] \<Rightarrow> [[c]] | w # ws \<Rightarrow> (c # w) # ws))"

definition parse_version :: "string \<Rightarrow> (nat \<times> nat \<times> nat) option" where
  "parse_version s =
     (case map numeric_identifier (split_dots s) of
        [Some major, Some minor, Some patch] \<Rightarrow> Some (major, minor, patch)
      | _ \<Rightarrow> None)"

definition version_gt :: "nat \<times> nat \<times> nat \<Rightarrow> nat \<times> nat \<times> nat \<Rightarrow> bool" where
  "version_gt a b =
     (case (a, b) of
        ((a1, a2, a3), (b1, b2, b3)) \<Rightarrow>
          a1 > b1 \<or> (a1 = b1 \<and> (a2 > b2 \<or> (a2 = b2 \<and> a3 > b3))))"

definition caret_upper :: "nat \<times> nat \<times> nat \<Rightarrow> nat \<times> nat \<times> nat" where
  "caret_upper a =
     (case a of
        (major, minor, patch) \<Rightarrow>
          if major > 0 then (major + 1, 0, 0)
          else if minor > 0 then (0, minor + 1, 0)
          else (0, 0, patch + 1))"

definition frag_gt :: "string \<Rightarrow> string \<Rightarrow> bool" where
  "frag_gt a b =
     (case (parse_version a, parse_version b) of
        (Some x, Some y) \<Rightarrow> version_gt x y
      | _ \<Rightarrow> False)"

definition frag_satisfies :: "string \<Rightarrow> string \<Rightarrow> bool" where
  "frag_satisfies v rg =
     (case parse_version v of
        None \<Rightarrow> False
      | Some x \<Rightarrow>
          (case rg of
             [] \<Rightarrow> False
           | c # rest \<Rightarrow>
               if c = CHR ''^'' then
                 (case parse_version rest of
                    None \<Rightarrow> False
                  | Some lo \<Rightarrow> \<not> version_gt lo x \<and> version_gt (caret_upper lo) x)
               else (case parse_version rg of None \<Rightarrow> False | Some y \<Rightarrow> x = y)))"

definition frag_validRange :: "string \<Rightarrow> bool" where
  "frag_validRange rg =
     (case rg of
        [] \<Rightarrow> False
      | c # rest \<Rightarrow>
          if c = CHR ''^'' then parse_version rest \<noteq> None else parse_version rg \<noteq> None)"

definition semver_fragment :: host where
  "semver_fragment =
     \<lparr>validRange = frag_validRange, semverSatisfies = frag_satisfies, semverGt = frag_gt\<rparr>"

subsection \<open>The guards of \<^verbatim>\<open>processDependency\<close>\<close>

text \<open>
  An entry reaches the lookup of its candidates (line 427) when it has passed the two
  early returns (lines 412 and 419); \<open>report_at_selection\<close> is the report at that
  point.
\<close>

definition reaches_selection :: "host \<Rightarrow> options \<Rightarrow> descriptor \<Rightarrow> string \<Rightarrow> bool" where
  "reaches_selection H opt d rg =
     ((needsPin H rg \<or> explicitlyIncluded_of opt d)
      \<and> (case onlyPackages opt of
            None \<Rightarrow> True
          | Some l \<Rightarrow> pRef (scope d) (name d) (range_d d) \<in> set l))"

definition report_at_selection ::
  "host \<Rightarrow> options \<Rightarrow> string \<Rightarrow> descriptor \<Rightarrow> string \<Rightarrow> report \<Rightarrow> report" where
  "report_at_selection H opt workspaceCwd d rg r =
     (if \<not> needsPin H rg
      then logVerboseInfo opt workspaceCwd (''Include: '' @ pRef (scope d) (name d) (range_d d)) r
      else r)"

subsection \<open>Notions used in the properties\<close>

text \<open>
  A strict weak order on a set: asymmetric and negatively transitive. The comparison
  \<^verbatim>\<open>semver.gt\<close> is one on valid versions (it compares major, minor, patch and
  prerelease, and ignores build metadata).
\<close>

definition strict_weak_on :: "'a set \<Rightarrow> ('a \<Rightarrow> 'a \<Rightarrow> bool) \<Rightarrow> bool" where
  "strict_weak_on A lt =
     ((\<forall>a\<in>A. \<forall>b\<in>A. lt a b \<longrightarrow> \<not> lt b a)
      \<and> (\<forall>a\<in>A. \<forall>b\<in>A. \<forall>c\<in>A. lt a c \<longrightarrow> lt a b \<or> lt b c))"

text \<open>
  \<^verbatim>\<open>semver.gt\<close> on the versions of two packages; the versions a list of packages
  has; and the invariant of \<^verbatim>\<open>project.storedPackages\<close>: a package is stored under its
  own \<^verbatim>\<open>locatorHash\<close>.
\<close>

definition gt_pkg :: "host \<Rightarrow> package \<Rightarrow> package \<Rightarrow> bool" where
  "gt_pkg H a b =
     (case (version a, version b) of
        (Some va, Some vb) \<Rightarrow> semverGt H va vb
      | _ \<Rightarrow> False)"

definition versions_of :: "package list \<Rightarrow> string set" where
  "versions_of ps = {v. \<exists>p\<in>set ps. version p = Some v}"

definition wf_packages :: "project \<Rightarrow> bool" where
  "wf_packages P = (\<forall>h p. map_of (storedPackages P) h = Some p \<longrightarrow> locatorHash p = h)"

text \<open>The pairs of positions \<open>i < j\<close> of a list whose elements satisfy \<open>Q\<close>.\<close>

definition pair_indices :: "('a \<times> 'a \<Rightarrow> bool) \<Rightarrow> 'a list \<Rightarrow> (nat \<times> nat) set" where
  "pair_indices Q xs = {(i, j). i < j \<and> j < length xs \<and> Q (xs ! i, xs ! j)}"

text \<open>
  The locators the index holds for an identity, and the locators that the stored
  resolutions of the descriptors of an identity point to.
\<close>

definition lookup_set :: "('k \<times> 'v list) list \<Rightarrow> 'k \<Rightarrow> 'v set" where
  "lookup_set m k = (case map_of m k of None \<Rightarrow> {} | Some ls \<Rightarrow> set ls)"

definition resolved_locators :: "project \<Rightarrow> (DescriptorHash \<times> LocatorHash) list \<Rightarrow> IdentHash \<Rightarrow> LocatorHash set" where
  "resolved_locators P rs k =
     {lh. \<exists>dh d. (dh, lh) \<in> set rs \<and> map_of (storedDescriptors P) dh = Some d \<and> identHash d = k}"

text \<open>
  Projections of the results of the command and of the Plan Applier: the state a run
  ends in (with or without an exception), the disk and the report a loop ends with, and
  the outcome of a loop without its report and disk.
\<close>

definition final_state :: "(error \<times> cmd_state) + cmd_state \<Rightarrow> cmd_state" where
  "final_state x = (case x of Inl (e, st) \<Rightarrow> st | Inr st \<Rightarrow> st)"

definition disk_of_pin :: "('e \<times> 'w \<times> report \<times> (string \<times> manifest) list) + ('w \<times> report \<times> (string \<times> manifest) list)
     \<Rightarrow> (string \<times> manifest) list" where
  "disk_of_pin x = (case x of Inl (e, w, r, d) \<Rightarrow> d | Inr (w, r, d) \<Rightarrow> d)"

definition entries_outcome ::
  "(error \<times> manifest \<times> report \<times> nat) + (manifest \<times> report \<times> nat) \<Rightarrow> error option \<times> manifest \<times> nat" where
  "entries_outcome x = (case x of Inl (e, m, r, n) \<Rightarrow> (Some e, m, n) | Inr (m, r, n) \<Rightarrow> (None, m, n))"

definition workspace_outcome ::
  "(error \<times> 'w \<times> report \<times> (string \<times> manifest) list) + ('w \<times> report \<times> (string \<times> manifest) list)
     \<Rightarrow> error option \<times> 'w" where
  "workspace_outcome x = (case x of Inl (e, w, r, d) \<Rightarrow> (Some e, w) | Inr (w, r, d) \<Rightarrow> (None, w))"

definition report_of_pin :: "('e \<times> 'w \<times> report \<times> 'd) + ('w \<times> report \<times> 'd) \<Rightarrow> report" where
  "report_of_pin x = (case x of Inl (e, w, r, d) \<Rightarrow> r | Inr (w, r, d) \<Rightarrow> r)"

subsection \<open>Concrete inputs\<close>

definition no_flags :: options where
  "no_flags =
     \<lparr>dryRun = False, onlyDevDependencies = False, ignoreDevDependencies = False,
      verbose = False, onlyPackages = None, alsoIncludePackages = None, onlyWorkspaces = None\<rparr>"

definition empty_report :: report where
  "empty_report = \<lparr>lines = [], reportedWarnings = []\<rparr>"

definition empty_pd :: pd_state where
  "empty_pd = \<lparr>log_r = empty_report, pinnableInWorkspace = [], reportablePinsInWorkspace = []\<rparr>"

definition dep :: "string \<Rightarrow> string \<Rightarrow> descriptor" where
  "dep n rg = \<lparr>identHash = n, scope = None, name = n, range_d = Some rg\<rparr>"

definition pkg :: "string \<Rightarrow> string \<Rightarrow> package" where
  "pkg h v = \<lparr>locatorHash = h, version = Some v, devirtualized = None\<rparr>"

definition one_workspace :: "(IdentHash \<times> descriptor) list \<Rightarrow> (IdentHash \<times> descriptor) list \<Rightarrow> workspace" where
  "one_workspace deps devDeps =
     \<lparr>cwd = ''/A'', relativeCwd = ''.'',
      manifest_w = \<lparr>m_name = Some ''A'', dependencies = deps, devDependencies = devDeps\<rparr>\<rparr>"

text \<open>A scoped package with a tag as its range, and the filter that names it in full.\<close>

definition babel_core :: descriptor where
  "babel_core =
     \<lparr>identHash = ''babel-core'', scope = Some ''babel'', name = ''core'', range_d = Some ''canary''\<rparr>"

definition also_babel_core :: options where
  "also_babel_core = no_flags\<lparr>alsoIncludePackages := Some [''@babel/core:canary'']\<rparr>"

definition babel_project :: project where
  "babel_project =
     \<lparr>storedResolutions = [(''d-babel-core'', ''B'')],
      storedDescriptors = [(''d-babel-core'', babel_core)],
      storedPackages = [(''B'', pkg ''B'' ''7.20.0'')],
      p_workspaces = [one_workspace [(''babel-core'', babel_core)] []]\<rparr>"

text \<open>
  A workspace whose first dependency, \<^verbatim>\<open>ghost\<close>, has no resolution, and whose second,
  \<^verbatim>\<open>lib\<close>, resolves to 2.3.0.
\<close>

definition ghost_project :: project where
  "ghost_project =
     \<lparr>storedResolutions = [(''d-lib'', ''X'')],
      storedDescriptors = [(''d-lib'', dep ''lib'' ''^2.0.0'')],
      storedPackages = [(''X'', pkg ''X'' ''2.3.0'')],
      p_workspaces =
        [one_workspace [(''ghost'', dep ''ghost'' ''^1.0.0''), (''lib'', dep ''lib'' ''^2.0.0'')] []]\<rparr>"

text \<open>A dependency \<^verbatim>\<open>lib:^2.0.0\<close> whose only resolution, 3.1.0, is outside its range.\<close>

definition single_project :: project where
  "single_project =
     \<lparr>storedResolutions = [(''d-lib'', ''Z'')],
      storedDescriptors = [(''d-lib'', dep ''lib'' ''^2.0.0'')],
      storedPackages = [(''Z'', pkg ''Z'' ''3.1.0'')],
      p_workspaces = [one_workspace [(''lib'', dep ''lib'' ''^2.0.0'')] []]\<rparr>"

text \<open>A dependency already written as the exact version it resolves to.\<close>

definition pinned_project :: project where
  "pinned_project =
     \<lparr>storedResolutions = [(''d-lib'', ''X'')],
      storedDescriptors = [(''d-lib'', dep ''lib'' ''2.3.0'')],
      storedPackages = [(''X'', pkg ''X'' ''2.3.0'')],
      p_workspaces = [one_workspace [(''lib'', dep ''lib'' ''2.3.0'')] []]\<rparr>"

text \<open>
  The scenario of the specification: \<^verbatim>\<open>lib:^2.0.0\<close> with the candidates 2.3.0
  (locator X) and 2.1.0 (locator Y); and the filter \<^verbatim>\<open>--also lib:^2.0.0\<close>.
\<close>

definition lib_project :: project where
  "lib_project =
     \<lparr>storedResolutions = [(''d-lib-a'', ''X''), (''d-lib-b'', ''Y'')],
      storedDescriptors = [(''d-lib-a'', dep ''lib'' ''^2.0.0''), (''d-lib-b'', dep ''lib'' ''2.1.0'')],
      storedPackages = [(''X'', pkg ''X'' ''2.3.0''), (''Y'', pkg ''Y'' ''2.1.0'')],
      p_workspaces = [one_workspace [(''lib'', dep ''lib'' ''^2.0.0'')] []]\<rparr>"

definition also_lib :: options where
  "also_lib = no_flags\<lparr>alsoIncludePackages := Some [''lib:^2.0.0'']\<rparr>"

text \<open>Three locators of \<^verbatim>\<open>lib\<close>, all of version 1.0.0.\<close>

definition dup_project :: project where
  "dup_project =
     \<lparr>storedResolutions = [(''d1'', ''A1''), (''d2'', ''A2''), (''d3'', ''A3'')],
      storedDescriptors = [(''d1'', dep ''lib'' ''^1.0.0''), (''d2'', dep ''lib'' ''1.0.0''),
                           (''d3'', dep ''lib'' ''^1.0.0'')],
      storedPackages = [(''A1'', pkg ''A1'' ''1.0.0''), (''A2'', pkg ''A2'' ''1.0.0''),
                        (''A3'', pkg ''A3'' ''1.0.0'')],
      p_workspaces = [one_workspace [(''lib'', dep ''lib'' ''^1.0.0'')] []]\<rparr>"

text \<open>
  A dependency resolved to a virtual locator V, whose devirtualized locator is S.
\<close>

definition virtual_project :: project where
  "virtual_project =
     \<lparr>storedResolutions = [(''d-styled'', ''V'')],
      storedDescriptors = [(''d-styled'', dep ''styled'' ''^5.0.0'')],
      storedPackages =
        [(''V'', \<lparr>locatorHash = ''V'', version = Some ''5.3.0'', devirtualized = Some ''S''\<rparr>),
         (''S'', pkg ''S'' ''5.3.0'')],
      p_workspaces = [one_workspace [(''styled'', dep ''styled'' ''^5.0.0'')] []]\<rparr>"

text \<open>The manifest file of the workspace of \<open>single_project\<close>, as first on disk.\<close>

definition original_disk :: "(string \<times> manifest) list" where
  "original_disk = [(''/A/package.json'', manifest_w (one_workspace [(''lib'', dep ''lib'' ''^2.0.0'')] []))]"

subsection \<open>Notions used for a second run\<close>

text \<open>
  What \<^verbatim>\<open>processDependency\<close> (lines 380-514) decides for one entry of a manifest, the
  report left out: an exception, no plan entry, or the package the entry is planned to be
  pinned to. The report never influences the decision, so the locators are looked up
  with an empty one.
\<close>

definition pin_decision ::
  "host \<Rightarrow> options \<Rightarrow> project \<Rightarrow> (IdentHash \<times> LocatorHash list) list \<Rightarrow> IdentHash \<times> descriptor \<Rightarrow>
   error + package option" where
  "pin_decision H opt P L entry =
     (case range_d (snd entry) of
        None \<Rightarrow> Inl (UndefinedRead ''indexOf'')
      | Some rg \<Rightarrow>
          if \<not> reaches_selection H opt (snd entry) rg then Inr None
          else (case pinTo_of H P L (explicitlyIncluded_of opt (snd entry)) [] [] rg (fst entry)
                       empty_report of
                  Inl (e, r) \<Rightarrow> Inl e
                | Inr (None, r) \<Rightarrow> Inl (UndefinedRead ''version'')
                | Inr (Some p, r) \<Rightarrow> if version p = Some rg then Inr None else Inr (Some p)))"

text \<open>The plan of a workspace after a decision on the entry of identity \<open>ih\<close>.\<close>

definition plan_after :: "(IdentHash \<times> package) list \<Rightarrow> IdentHash \<Rightarrow> package option \<Rightarrow> (IdentHash \<times> package) list" where
  "plan_after m ih dec = (case dec of None \<Rightarrow> m | Some p \<Rightarrow> map_set m ih p)"

text \<open>
  Every stored package has a version, and that version, read as a range, is satisfied by
  itself and by no other version of a stored package.
\<close>

definition exact_versions :: "host \<Rightarrow> project \<Rightarrow> bool" where
  "exact_versions H P =
     (\<forall>h p. map_of (storedPackages P) h = Some p \<longrightarrow>
        (\<exists>v. version p = Some v \<and> \<not> has_line_terminator v \<and> semverSatisfies H v v
           \<and> (\<forall>h' p' v'. map_of (storedPackages P) h' = Some p' \<and> version p' = Some v'
                  \<and> semverSatisfies H v' v \<longrightarrow> v' = v)))"

text \<open>
  The entries \<^verbatim>\<open>findPinnableInWorkspace\<close> hands to \<^verbatim>\<open>processDependency\<close>, in order.
\<close>

definition processed_entries :: "options \<Rightarrow> manifest \<Rightarrow> (IdentHash \<times> descriptor) list" where
  "processed_entries opt m =
     (if \<not> onlyDevDependencies opt then dependencies m else [])
     @ (if onlyDevDependencies opt \<or> \<not> ignoreDevDependencies opt then devDependencies m else [])"

text \<open>
  A map of a manifest, a manifest and a workspace with the range of every planned entry
  replaced by the version of the planned package.
\<close>

definition rewrite_map :: "(IdentHash \<times> package) list \<Rightarrow> (IdentHash \<times> descriptor) list \<Rightarrow> (IdentHash \<times> descriptor) list" where
  "rewrite_map pl es =
     map (\<lambda>(k, d). (k, case map_of pl k of Some p \<Rightarrow> d\<lparr>range_d := version p\<rparr> | None \<Rightarrow> d)) es"

definition rewrite_manifest :: "(IdentHash \<times> package) list \<Rightarrow> manifest \<Rightarrow> manifest" where
  "rewrite_manifest pl m =
     m\<lparr>dependencies := rewrite_map pl (dependencies m),
       devDependencies := rewrite_map pl (devDependencies m)\<rparr>"

definition rewrite_workspace :: "(string \<times> (IdentHash \<times> package) list) list \<Rightarrow> workspace \<Rightarrow> workspace" where
  "rewrite_workspace PL w =
     w\<lparr>manifest_w :=
         rewrite_manifest (case map_of PL (cwd w) of Some pl \<Rightarrow> pl | None \<Rightarrow> []) (manifest_w w)\<rparr>"

text \<open>
  The two maps of a manifest are JS maps (no key twice), and no identity is both a
  dependency and a devDependency.
\<close>

definition keys_ok :: "manifest \<Rightarrow> bool" where
  "keys_ok m =
     (distinct (map fst (dependencies m)) \<and> distinct (map fst (devDependencies m))
      \<and> set (map fst (dependencies m)) \<inter> set (map fst (devDependencies m)) = {})"

subsection \<open>Concrete inputs for a second run\<close>

text \<open>
  The filter that names \<^verbatim>\<open>lib\<close> at the version the first run pins it to, the workspace
  of \<open>lib_project\<close> with \<^verbatim>\<open>lib\<close> at a given range, and the state a run without flags
  ends in on \<open>lib_project\<close>.
\<close>

definition include_pinned :: options where
  "include_pinned = no_flags\<lparr>alsoIncludePackages := Some [''lib:2.3.0'']\<rparr>"

definition lib_pinned_to :: "string \<Rightarrow> workspace" where
  "lib_pinned_to v = one_workspace [(''lib'', dep ''lib'' v)] []"

definition lib_after_run :: cmd_state where
  "lib_after_run = final_state (execute semver_fragment no_flags lib_project original_disk)"

section \<open>Properties\<close>

subsection \<open>Basic facts\<close>

lemma needsPin_iff: "needsPin H rg = validRange H rg"
  by (simp add: needsPin_def)

lemma map_of_map_set: "map_of (map_set m k v) = (map_of m)(k \<mapsto> v)"
  by (induction m) (auto simp: fun_eq_iff)

lemma map_of_map_set_same: "map_of (map_set m k v) k = Some v"
  by (simp add: map_of_map_set)

subsection \<open>C8: explicit inclusion ignores the scope\<close>

text \<open>
  C8. The claim: an entry is explicitly included if and only if its fully rendered
  reference, with its scope, matches an \<^verbatim>\<open>--also\<close> or \<^verbatim>\<open>--only\<close> filter under the
  rules of the Descriptor Matcher. The code at the scoped dependency
  \<^verbatim>\<open>@babel/core:canary\<close> with \<^verbatim>\<open>--also @babel/core:canary\<close>: the rendered reference is
  \<^verbatim>\<open>@babel/core:canary\<close>, the matcher accepts the filter for the entry with its scope,
  but \<^verbatim>\<open>processDependency\<close> calls the matcher without the scope, finds the entry not
  explicitly included, and skips it.
\<close>

theorem C8_scoped_entry_not_included:
  "pRef (scope babel_core) (name babel_core) (range_d babel_core) = ''@babel/core:canary''
   \<and> isDependencyExplicitlyIncluded also_babel_core
        (scope babel_core) (name babel_core) (range_d babel_core)
   \<and> \<not> explicitlyIncluded_of also_babel_core babel_core
   \<and> processDependency semver_fragment also_babel_core babel_project [(''babel-core'', [''B''])]
        ''/A'' (''babel-core'', babel_core) empty_pd = Inr empty_pd"
  by code_simp

subsection \<open>The steps of \<^verbatim>\<open>processDependency\<close>\<close>

lemma processDependency_skip:
  assumes "range_d d = Some rg" and "\<not> needsPin H rg" and "\<not> explicitlyIncluded_of opt d"
  shows "processDependency H opt P L workspaceCwd (ih, d) s =
     Inr (s\<lparr>log_r := logVerboseWarning opt workspaceCwd
                         (''Skip: '' @ pRef (scope d) (name d) (range_d d)) (log_r s)\<rparr>)"
  using assms by (simp add: processDependency_def Let_def)

lemma processDependency_selection:
  assumes "range_d d = Some rg" and "reaches_selection H opt d rg"
  shows "processDependency H opt P L workspaceCwd (ih, d) s =
     (case pinTo_of H P L (explicitlyIncluded_of opt d) (pRef (scope d) (name d) (range_d d))
             workspaceCwd rg ih (report_at_selection H opt workspaceCwd d rg (log_r s)) of
        Inl (e, r2) \<Rightarrow> Inl (e, s\<lparr>log_r := r2\<rparr>)
      | Inr (None, r2) \<Rightarrow> Inl (UndefinedRead ''version'', s\<lparr>log_r := r2\<rparr>)
      | Inr (Some pinTo, r2) \<Rightarrow>
          if version pinTo = Some rg then
            Inr (s\<lparr>log_r :=
                   (if explicitlyIncluded_of opt d
                    then reportInfo (yellow ''-'' @ '' Already pinned: '' @ pRef (scope d) (name d) (range_d d)) r2
                    else logVerboseWarning opt workspaceCwd
                           (''already pinned '' @ pRef (scope d) (name d) (range_d d) @ '' to ''
                              @ render (version pinTo)) r2)\<rparr>)
          else
            Inr (s\<lparr>log_r := logVerboseInfo opt workspaceCwd
                              (''will pin '' @ pRef (scope d) (name d) (range_d d) @ '' to ''
                                 @ render (version pinTo) @ '' in '' @ workspaceCwd) r2,
                    pinnableInWorkspace := map_set (pinnableInWorkspace s) ih pinTo,
                    reportablePinsInWorkspace :=
                      map_set (reportablePinsInWorkspace s) (pRef (scope d) (name d) (range_d d))
                        (version pinTo)\<rparr>))"
  using assms
  by (auto simp: processDependency_def reaches_selection_def report_at_selection_def Let_def
           split: option.splits)

lemma pinTo_of_single:
  assumes "map_of L ih = Some [h]"
  shows "pinTo_of H P L ex depPkgRef workspaceCwd rg ih r = Inr (map_of (storedPackages P) h, r)"
  using assms by (simp add: pinTo_of_def)

lemma pinTo_of_missing:
  assumes "map_of L ih = None"
  shows "pinTo_of H P L ex depPkgRef workspaceCwd rg ih r =
           Inr (None, reportWarning (missing_message depPkgRef workspaceCwd) r)"
  using assms by (simp add: pinTo_of_def)

subsection \<open>C2: no candidate\<close>

text \<open>
  Whenever an entry reaches the lookup and its identity is not in the index, the
  warning is reported and \<^verbatim>\<open>pinTo\<close> stays \<^verbatim>\<open>undefined\<close>; line 496 then reads
  \<^verbatim>\<open>pinTo.version\<close> and the engine throws.
\<close>

lemma processDependency_missing:
  assumes "range_d d = Some rg" and "reaches_selection H opt d rg" and "map_of L ih = None"
  shows "processDependency H opt P L workspaceCwd (ih, d) s =
     Inl (UndefinedRead ''version'',
          s\<lparr>log_r := reportWarning (missing_message (pRef (scope d) (name d) (range_d d)) workspaceCwd)
                        (report_at_selection H opt workspaceCwd d rg (log_r s))\<rparr>)"
  using assms by (simp add: processDependency_selection pinTo_of_missing)

text \<open>
  C2. The claim: an entry with no resolved candidate gets a \<^verbatim>\<open>Missing locator\<close> warning
  and no plan entry, and the run goes on with the other entries and workspaces. The
  code on a workspace that declares \<^verbatim>\<open>ghost:^1.0.0\<close> (no resolution) before
  \<^verbatim>\<open>lib:^2.0.0\<close> (resolved to 2.3.0): the warning is reported, then the run ends with
  a \<^verbatim>\<open>TypeError\<close>; \<^verbatim>\<open>lib\<close> is never processed, the plan is empty and nothing is
  pinned.
\<close>

theorem C2_missing_locator_aborts:
  "execute semver_fragment no_flags ghost_project [] =
     Inl (UndefinedRead ''version'',
          \<lparr>log_c = \<lparr>lines = [Warning ''Missing locator: ghost:^1.0.0, in workspace /A''],
                     reportedWarnings = []\<rparr>,
           workspaces = p_workspaces ghost_project,
           locatorsByIdent_c = [(''lib'', [''X''])],
           pinnableByWorkspaceCwd = [(''/A'', [])],
           reportablePinsByWorkspaceCwd = [(''/A'', [])],
           disk = []\<rparr>)"
  by code_simp

subsection \<open>C7: exactly one candidate\<close>

text \<open>
  C7. An entry that reaches the lookup and whose identity has exactly one locator in the
  index, with a package record, gets that package as \<^verbatim>\<open>pinTo\<close>, for every host: the
  functions of \<^verbatim>\<open>semver\<close> are not consulted. The entry is then planned to that
  package, unless the package's version is already the declared range.
\<close>

theorem C7_single_candidate_is_pin_target:
  assumes "range_d d = Some rg" and "reaches_selection H opt d rg"
    and "map_of L ih = Some [h]" and "map_of (storedPackages P) h = Some p"
  shows "pinTo_of H P L (explicitlyIncluded_of opt d) (pRef (scope d) (name d) (range_d d))
           workspaceCwd rg ih r = Inr (Some p, r)
       \<and> (case processDependency H opt P L workspaceCwd (ih, d) s of
            Inl x \<Rightarrow> False
          | Inr s' \<Rightarrow>
              if version p = Some rg
              then pinnableInWorkspace s' = pinnableInWorkspace s
              else pinnableInWorkspace s' = map_set (pinnableInWorkspace s) ih p)"
  using assms
  by (simp add: processDependency_selection pinTo_of_single)

text \<open>The witness: the only candidate, 3.1.0, does not satisfy \<^verbatim>\<open>^2.0.0\<close> and is planned.\<close>

theorem C7_witness:
  "range_d (dep ''lib'' ''^2.0.0'') = Some ''^2.0.0''
   \<and> reaches_selection semver_fragment no_flags (dep ''lib'' ''^2.0.0'') ''^2.0.0''
   \<and> \<not> semverSatisfies semver_fragment ''3.1.0'' ''^2.0.0''
   \<and> pinnableInWorkspace
        (projr (processDependency semver_fragment no_flags single_project [(''lib'', [''Z''])] ''/A''
           (''lib'', dep ''lib'' ''^2.0.0'') empty_pd)) = [(''lib'', pkg ''Z'' ''3.1.0'')]"
proof -
  have 1: "range_d (dep ''lib'' ''^2.0.0'') = Some ''^2.0.0''" by code_simp
  have 2: "reaches_selection semver_fragment no_flags (dep ''lib'' ''^2.0.0'') ''^2.0.0''"
    by code_simp
  have 3: "map_of [(''lib'', [''Z''])] ''lib'' = Some [''Z'']" by simp
  have 4: "map_of (storedPackages single_project) ''Z'' = Some (pkg ''Z'' ''3.1.0'')"
    by code_simp
  have 5: "\<not> semverSatisfies semver_fragment ''3.1.0'' ''^2.0.0''" by code_simp
  have 6: "version (pkg ''Z'' ''3.1.0'') \<noteq> Some ''^2.0.0''" by code_simp
  from C7_single_candidate_is_pin_target [OF 1 2 3 4, of "''/A''" empty_report empty_pd] 6
  have "pinnableInWorkspace
          (projr (processDependency semver_fragment no_flags single_project [(''lib'', [''Z''])]
             ''/A'' (''lib'', dep ''lib'' ''^2.0.0'') empty_pd))
        = map_set (pinnableInWorkspace empty_pd) ''lib'' (pkg ''Z'' ''3.1.0'')"
    by (auto split: sum.splits)
  then show ?thesis using 1 2 5 by (simp add: empty_pd_def)
qed

subsection \<open>C6: \<^verbatim>\<open>needsPin\<close>\<close>

text \<open>
  C6, as claimed: \<^verbatim>\<open>needsPin(range)\<close> is true if and only if the range is a valid
  semver range that is not an exact version. It fails at the exact version 2.3.0:
  \<^verbatim>\<open>semverUtils.validRange\<close> accepts it, \<^verbatim>\<open>needsPin\<close> is true, and the entry is not
  skipped but goes through the selection to the comparison of line 496, which reports
  it as already pinned.
\<close>

theorem C6_exact_version_counterexample:
  "needsPin semver_fragment ''2.3.0''
   \<and> parse_version ''2.3.0'' = Some (2, 3, 0)
   \<and> processDependency semver_fragment (no_flags\<lparr>verbose := True\<rparr>) pinned_project
        [(''lib'', [''X''])] ''/A'' (''lib'', dep ''lib'' ''2.3.0'') empty_pd
      = Inr (empty_pd\<lparr>log_r := \<lparr>lines = [Warning ''/A already pinned lib:2.3.0 to 2.3.0''],
                                  reportedWarnings = []\<rparr>\<rparr>)"
  by code_simp

text \<open>
  C6, amended: \<^verbatim>\<open>needsPin(range)\<close> is true if and only if
  \<^verbatim>\<open>semverUtils.validRange\<close> accepts the range (exact versions included). An entry for
  which it is false and which matches no \<^verbatim>\<open>--also\<close> or \<^verbatim>\<open>--only\<close> filter, neither by
  its full reference nor by the reference that \<^verbatim>\<open>processDependency\<close> gives the
  matcher, is skipped: both maps of the plan keep their content and only the verbose
  \<^verbatim>\<open>Skip\<close> line is reported.
\<close>

theorem C6_needsPin_and_skip:
  assumes "range_d d = Some rg" and "\<not> needsPin H rg"
    and "\<not> isDependencyExplicitlyIncluded opt (scope d) (name d) (range_d d)"
    and "\<not> explicitlyIncluded_of opt d"
  shows "(\<forall>x. needsPin H x = validRange H x)
       \<and> processDependency H opt P L workspaceCwd (ih, d) s =
           Inr (s\<lparr>log_r := logVerboseWarning opt workspaceCwd
                              (''Skip: '' @ pRef (scope d) (name d) (range_d d)) (log_r s)\<rparr>)
       \<and> pinnableInWorkspace (projr (processDependency H opt P L workspaceCwd (ih, d) s))
           = pinnableInWorkspace s
       \<and> reportablePinsInWorkspace (projr (processDependency H opt P L workspaceCwd (ih, d) s))
           = reportablePinsInWorkspace s"
  using assms by (simp add: processDependency_skip needsPin_iff)

text \<open>The witness: the tag \<^verbatim>\<open>canary\<close> is no range, no filter is given, the entry is skipped.\<close>

theorem C6_witness:
  "range_d (dep ''next'' ''canary'') = Some ''canary''
   \<and> \<not> needsPin semver_fragment ''canary''
   \<and> \<not> isDependencyExplicitlyIncluded no_flags (scope (dep ''next'' ''canary''))
          (name (dep ''next'' ''canary'')) (range_d (dep ''next'' ''canary''))
   \<and> \<not> explicitlyIncluded_of no_flags (dep ''next'' ''canary'')
   \<and> processDependency semver_fragment no_flags pinned_project [(''next'', [''X''])] ''/A''
        (''next'', dep ''next'' ''canary'') empty_pd = Inr empty_pd"
proof -
  have 1: "range_d (dep ''next'' ''canary'') = Some ''canary''" by code_simp
  have 2: "\<not> needsPin semver_fragment ''canary''" by code_simp
  have 3: "\<not> isDependencyExplicitlyIncluded no_flags (scope (dep ''next'' ''canary''))
          (name (dep ''next'' ''canary'')) (range_d (dep ''next'' ''canary''))" by code_simp
  have 4: "\<not> explicitlyIncluded_of no_flags (dep ''next'' ''canary'')" by code_simp
  have 5: "logVerboseWarning no_flags w m (log_r empty_pd) = log_r empty_pd" for w m
    by (simp add: logVerboseWarning_def no_flags_def)
  from C6_needsPin_and_skip [OF 1 2 3 4, of pinned_project "[(''next'', [''X''])]" "''/A''"
      "''next''" empty_pd]
  have "processDependency semver_fragment no_flags pinned_project [(''next'', [''X''])] ''/A''
        (''next'', dep ''next'' ''canary'') empty_pd = Inr empty_pd"
    by (simp add: 5)
  with 1 2 3 4 show ?thesis by simp
qed

subsection \<open>The sort of the engine\<close>

lemma mset_take_drop: "mset (take k xs) + mset (drop k xs) = mset xs"
  by (metis append_take_drop_id mset_append)

lemma mset_binaryInsertionSort: "mset (binaryInsertionSort c w rest) = mset w + mset rest"
  by (induction rest arbitrary: w) (simp_all add: Let_def mset_take_drop)

lemma mset_array_sort: "mset (array_sort c xs) = mset xs"
proof (cases xs)
  case Nil
  then show ?thesis by (simp add: array_sort_def)
next
  case (Cons a ys)
  show ?thesis
  proof (cases ys)
    case Nil
    with Cons show ?thesis by (simp add: array_sort_def)
  next
    case (Cons b zs)
    with \<open>xs = a # ys\<close> show ?thesis
      by (simp add: array_sort_def Let_def mset_binaryInsertionSort mset_take_drop)
  qed
qed

lemma set_array_sort: "set (array_sort c xs) = set xs"
  by (metis mset_array_sort set_mset_mset)

lemma length_array_sort: "length (array_sort c xs) = length xs"
  by (metis mset_array_sort size_mset)

lemma binarySearch_spec:
  assumes "left \<le> right" and "right \<le> length xs"
    and "sorted_wrt (\<lambda>x y. \<not> c y x < 0) xs"
    and "strict_weak_on (insert p (set xs)) (\<lambda>x y. c x y < 0)"
    and "\<forall>i<left. \<not> c p (xs ! i) < 0"
    and "\<forall>i. right \<le> i \<and> i < length xs \<longrightarrow> c p (xs ! i) < 0"
  shows "binarySearch c p xs left right \<le> length xs
       \<and> (\<forall>i<binarySearch c p xs left right. \<not> c p (xs ! i) < 0)
       \<and> (\<forall>i. binarySearch c p xs left right \<le> i \<and> i < length xs \<longrightarrow> c p (xs ! i) < 0)"
  using assms
proof (induction c p xs left right rule: binarySearch.induct)
  case (1 c pivot xs left right)
  show ?case
  proof (cases "left < right")
    case False
    with "1.prems" have "left = right" by simp
    with "1.prems" show ?thesis by (simp add: binarySearch.simps [of c pivot xs right right])
  next
    case True
    define mid where "mid = left + (right - left) div 2"
    have mid: "left \<le> mid" "mid < right" using True by (auto simp: mid_def)
    then have midlen: "mid < length xs" using "1.prems" by simp
    have NT: "\<And>a b d. a \<in> insert pivot (set xs) \<Longrightarrow> b \<in> insert pivot (set xs) \<Longrightarrow>
                d \<in> insert pivot (set xs) \<Longrightarrow> c a d < 0 \<Longrightarrow> c a b < 0 \<or> c b d < 0"
      using "1.prems"(4) unfolding strict_weak_on_def by blast
    have srt: "\<And>i j. i < j \<Longrightarrow> j < length xs \<Longrightarrow> \<not> c (xs ! j) (xs ! i) < 0"
      using "1.prems"(3) by (simp add: sorted_wrt_iff_nth_less)
    show ?thesis
    proof (cases "c pivot (xs ! mid) < 0")
      case lt: True
      have "\<forall>i. mid \<le> i \<and> i < length xs \<longrightarrow> c pivot (xs ! i) < 0"
      proof (intro allI impI)
        fix i assume i: "mid \<le> i \<and> i < length xs"
        show "c pivot (xs ! i) < 0"
        proof (cases "i = mid")
          case True
          with lt show ?thesis by simp
        next
          case False
          with i have "mid < i" by simp
          then have "\<not> c (xs ! i) (xs ! mid) < 0" using srt i by blast
          moreover have "c pivot (xs ! i) < 0 \<or> c (xs ! i) (xs ! mid) < 0"
            using NT [of pivot "xs ! i" "xs ! mid"] lt i midlen by simp
          ultimately show ?thesis by blast
        qed
      qed
      with "1.IH"(1) [OF True mid_def lt] "1.prems" mid
      have "binarySearch c pivot xs left mid \<le> length xs
       \<and> (\<forall>i<binarySearch c pivot xs left mid. \<not> c pivot (xs ! i) < 0)
       \<and> (\<forall>i. binarySearch c pivot xs left mid \<le> i \<and> i < length xs \<longrightarrow> c pivot (xs ! i) < 0)"
        by simp
      moreover have "binarySearch c pivot xs left right = binarySearch c pivot xs left mid"
        using True lt by (subst binarySearch.simps) (simp add: mid_def Let_def)
      ultimately show ?thesis by simp
    next
      case ge: False
      have "\<forall>i<mid + 1. \<not> c pivot (xs ! i) < 0"
      proof (intro allI impI)
        fix i assume i: "i < mid + 1"
        show "\<not> c pivot (xs ! i) < 0"
        proof (cases "i = mid")
          case True
          with ge show ?thesis by simp
        next
          case False
          with i have im: "i < mid" by simp
          then have "\<not> c (xs ! mid) (xs ! i) < 0" using srt midlen by blast
          moreover have "c pivot (xs ! i) < 0 \<Longrightarrow> c pivot (xs ! mid) < 0 \<or> c (xs ! mid) (xs ! i) < 0"
            using NT [of pivot "xs ! mid" "xs ! i"] im midlen by simp
          ultimately show ?thesis using ge by blast
        qed
      qed
      with "1.IH"(2) [OF True mid_def ge] "1.prems" mid
      have "binarySearch c pivot xs (mid + 1) right \<le> length xs
       \<and> (\<forall>i<binarySearch c pivot xs (mid + 1) right. \<not> c pivot (xs ! i) < 0)
       \<and> (\<forall>i. binarySearch c pivot xs (mid + 1) right \<le> i \<and> i < length xs \<longrightarrow> c pivot (xs ! i) < 0)"
        by simp
      moreover have "binarySearch c pivot xs left right = binarySearch c pivot xs (mid + 1) right"
        using True ge by (subst binarySearch.simps) (simp add: mid_def Let_def)
      ultimately show ?thesis by simp
    qed
  qed
qed

lemma strict_weak_on_subset: "strict_weak_on A lt \<Longrightarrow> B \<subseteq> A \<Longrightarrow> strict_weak_on B lt"
  unfolding strict_weak_on_def by blast

lemma sorted_insert_at:
  assumes srt: "sorted_wrt (\<lambda>x y. \<not> c y x < 0) xs"
    and sw: "strict_weak_on (insert p (set xs)) (\<lambda>x y. c x y < 0)"
  shows "sorted_wrt (\<lambda>x y. \<not> c y x < 0)
           (take (binarySearch c p xs 0 (length xs)) xs @ p # drop (binarySearch c p xs 0 (length xs)) xs)"
proof -
  define l where "l = binarySearch c p xs 0 (length xs)"
  have spec: "l \<le> length xs" "\<forall>i<l. \<not> c p (xs ! i) < 0"
    "\<forall>i. l \<le> i \<and> i < length xs \<longrightarrow> c p (xs ! i) < 0"
    using binarySearch_spec [of 0 "length xs" xs c p] srt sw by (simp_all add: l_def)
  have asym: "\<And>a b. a \<in> insert p (set xs) \<Longrightarrow> b \<in> insert p (set xs) \<Longrightarrow> c a b < 0 \<Longrightarrow> \<not> c b a < 0"
    using sw unfolding strict_weak_on_def by blast
  have 1: "sorted_wrt (\<lambda>x y. \<not> c y x < 0) (take l xs)"
    using srt by (metis append_take_drop_id sorted_wrt_append)
  have 2: "sorted_wrt (\<lambda>x y. \<not> c y x < 0) (drop l xs)"
    using srt by (metis append_take_drop_id sorted_wrt_append)
  have 3: "\<forall>x\<in>set (take l xs). \<forall>y\<in>set (drop l xs). \<not> c y x < 0"
    using srt by (metis append_take_drop_id sorted_wrt_append)
  have 4: "\<forall>x\<in>set (take l xs). \<not> c p x < 0"
  proof
    fix x assume "x \<in> set (take l xs)"
    then obtain i where "i < length (take l xs)" "take l xs ! i = x"
      by (auto simp: in_set_conv_nth)
    then have "i < l" "xs ! i = x" by simp_all
    with spec(2) show "\<not> c p x < 0" by blast
  qed
  have 5: "\<forall>y\<in>set (drop l xs). \<not> c y p < 0"
  proof
    fix y assume y: "y \<in> set (drop l xs)"
    then obtain i where i: "i < length (drop l xs)" "drop l xs ! i = y"
      by (auto simp: in_set_conv_nth)
    then have "l + i < length xs" "xs ! (l + i) = y" using spec(1) by simp_all
    with spec(3) have "c p y < 0" by (metis le_add1)
    moreover have "y \<in> set xs" using y by (meson in_set_dropD)
    ultimately show "\<not> c y p < 0" using asym [of p y] by simp
  qed
  show ?thesis
    unfolding l_def [symmetric] using 1 2 3 4 5 by (simp add: sorted_wrt_append)
qed

lemma set_insert_at: "set (take l xs @ p # drop l xs) = insert p (set xs)"
  by (metis mset_take_drop mset_append mset.simps(2) set_mset_mset set_mset_add_mset_insert
      union_mset_add_mset_right)

lemma sorted_binaryInsertionSort:
  assumes "sorted_wrt (\<lambda>x y. \<not> c y x < 0) w"
    and "strict_weak_on (set w \<union> set rest) (\<lambda>x y. c x y < 0)"
  shows "sorted_wrt (\<lambda>x y. \<not> c y x < 0) (binaryInsertionSort c w rest)"
  using assms
proof (induction rest arbitrary: w)
  case Nil
  then show ?case by simp
next
  case (Cons p rest)
  define w' where "w' = take (binarySearch c p w 0 (length w)) w @ p # drop (binarySearch c p w 0 (length w)) w"
  have sw: "strict_weak_on (insert p (set w)) (\<lambda>x y. c x y < 0)"
    using Cons.prems(2) by (rule strict_weak_on_subset) auto
  have 1: "sorted_wrt (\<lambda>x y. \<not> c y x < 0) w'"
    unfolding w'_def using Cons.prems(1) sw by (rule sorted_insert_at)
  have "set w' = insert p (set w)" unfolding w'_def by (rule set_insert_at)
  then have 2: "strict_weak_on (set w' \<union> set rest) (\<lambda>x y. c x y < 0)"
    using Cons.prems(2) by simp
  from Cons.IH [OF 1 2] show ?case by (simp add: Let_def w'_def)
qed

text \<open>The run that count_run finds.\<close>

lemma count_run_le: "count_run d c prev xs \<le> length xs"
  by (induction xs arbitrary: prev) (simp_all add: Let_def)

lemma successively_run_False:
  "successively (\<lambda>x y. \<not> c y x < 0) (prev # take (count_run False c prev xs) xs)"
  by (induction xs arbitrary: prev) (simp_all add: Let_def)

lemma successively_run_True:
  "successively (\<lambda>x y. c y x < 0) (prev # take (count_run True c prev xs) xs)"
  by (induction xs arbitrary: prev) (auto simp add: Let_def)

lemma sorted_wrt_of_successively:
  assumes "successively (\<lambda>x y. \<not> c y x < 0) xs"
    and "strict_weak_on (set xs) (\<lambda>x y. c x y < 0)"
  shows "sorted_wrt (\<lambda>x y. \<not> c y x < 0) xs"
proof -
  have "\<And>x y z. x \<in> set xs \<Longrightarrow> y \<in> set xs \<Longrightarrow> z \<in> set xs \<Longrightarrow>
           \<not> c y x < 0 \<Longrightarrow> \<not> c z y < 0 \<Longrightarrow> \<not> c z x < 0"
    using assms(2) unfolding strict_weak_on_def by blast
  then show ?thesis
    using assms(1) successively_iff_sorted_wrt_strong [of xs "\<lambda>x y. \<not> c y x < 0"] by blast
qed

lemma successively_rev_desc:
  assumes "successively (\<lambda>x y. c y x < 0) xs"
    and "strict_weak_on (set xs) (\<lambda>x y. c x y < 0)"
  shows "successively (\<lambda>x y. \<not> c y x < 0) (rev xs)"
proof -
  have "successively (\<lambda>x y. c x y < 0) (rev xs)"
    using assms(1) by (simp add: successively_rev)
  moreover have "\<And>x y. x \<in> set (rev xs) \<Longrightarrow> y \<in> set (rev xs) \<Longrightarrow> c x y < 0 \<Longrightarrow> \<not> c y x < 0"
    using assms(2) unfolding strict_weak_on_def by simp
  ultimately show ?thesis
    by (rule successively_mono) 
qed

lemma sorted_array_sort:
  assumes "strict_weak_on (set xs) (\<lambda>x y. c x y < 0)"
  shows "sorted_wrt (\<lambda>x y. \<not> c y x < 0) (array_sort c xs)"
proof (cases xs)
  case Nil
  then show ?thesis by (simp add: array_sort_def)
next
  case (Cons a ys)
  show ?thesis
  proof (cases ys)
    case Nil
    with Cons show ?thesis by (simp add: array_sort_def)
  next
    case (Cons b zs)
    with \<open>xs = a # ys\<close> have xs: "xs = a # b # zs" by simp
    define desc where "desc = (c b a < 0)"
    define k where "k = 2 + count_run desc c b zs"
    define run where "run = (if desc then rev (take k xs) else take k xs)"
    have take: "take k xs = a # b # take (count_run desc c b zs) zs"
      by (simp add: k_def xs)
    have sub: "set (take k xs) \<subseteq> set xs" by (rule set_take_subset)
    have sw_run: "strict_weak_on (set (take k xs)) (\<lambda>x y. c x y < 0)"
      using assms sub by (rule strict_weak_on_subset)
    have "sorted_wrt (\<lambda>x y. \<not> c y x < 0) run"
    proof (cases desc)
      case True
      have "successively (\<lambda>x y. c y x < 0) (take k xs)"
        using True successively_run_True [of c b zs] by (simp add: take desc_def)
      then have "successively (\<lambda>x y. \<not> c y x < 0) (rev (take k xs))"
        using sw_run by (rule successively_rev_desc)
      moreover have "strict_weak_on (set (rev (take k xs))) (\<lambda>x y. c x y < 0)"
        using sw_run by simp
      ultimately show ?thesis using True by (simp add: run_def sorted_wrt_of_successively)
    next
      case False
      have "successively (\<lambda>x y. \<not> c y x < 0) (take k xs)"
        using False successively_run_False [of c b zs] by (simp add: take desc_def)
      then show ?thesis using False sw_run by (simp add: run_def sorted_wrt_of_successively)
    qed
    moreover have "set run \<union> set (drop k xs) = set xs"
      by (metis append_take_drop_id run_def set_append set_rev)
    ultimately have "sorted_wrt (\<lambda>x y. \<not> c y x < 0) (binaryInsertionSort c run (drop k xs))"
      using assms by (simp add: sorted_binaryInsertionSort)
    moreover have "array_sort c xs = binaryInsertionSort c run (drop k xs)"
      by (simp add: array_sort_def xs Let_def run_def k_def desc_def)
    ultimately show ?thesis by simp
  qed
qed

text \<open>A comparator that always answers "before": the whole array is one descending run.\<close>

lemma count_run_const: "(\<And>x y. c x y < 0) \<Longrightarrow> count_run True c prev xs = length xs"
  by (induction xs arbitrary: prev) (simp_all add: Let_def not_le)

lemma array_sort_const:
  assumes "\<And>x y. c x y < 0"
  shows "array_sort c xs = rev xs"
proof (cases xs)
  case Nil
  then show ?thesis by (simp add: array_sort_def)
next
  case (Cons a ys)
  then show ?thesis
    by (cases ys) (simp_all add: array_sort_def Let_def assms count_run_const)
qed

subsection \<open>The candidates\<close>

lemma compare_candidates_lt:
  "(compare_candidates H False a b < 0) = gt_pkg H a b"
  by (simp add: compare_candidates_def gt_pkg_def split: option.splits)

lemma compare_candidates_explicit: "compare_candidates H True a b < 0"
  by (simp add: compare_candidates_def)

lemma strict_weak_on_gt_pkg:
  assumes "strict_weak_on (versions_of ps) (semverGt H)"
    and have_version: "\<forall>p\<in>set ps. version p \<noteq> None"
  shows "strict_weak_on (set ps) (gt_pkg H)"
proof -
  have asym: "\<And>a b. a \<in> versions_of ps \<Longrightarrow> b \<in> versions_of ps \<Longrightarrow> semverGt H a b \<Longrightarrow> \<not> semverGt H b a"
    and nt: "\<And>a b c. a \<in> versions_of ps \<Longrightarrow> b \<in> versions_of ps \<Longrightarrow> c \<in> versions_of ps \<Longrightarrow>
               semverGt H a c \<Longrightarrow> semverGt H a b \<or> semverGt H b c"
    using assms unfolding strict_weak_on_def by blast+
  have ver: "\<And>p v. p \<in> set ps \<Longrightarrow> version p = Some v \<Longrightarrow> v \<in> versions_of ps"
    by (auto simp: versions_of_def)
  show ?thesis
    unfolding strict_weak_on_def
  proof (intro conjI ballI impI)
    fix a b assume "a \<in> set ps" "b \<in> set ps" "gt_pkg H a b"
    then show "\<not> gt_pkg H b a"
      using asym ver by (auto simp: gt_pkg_def split: option.splits)
  next
    fix a b c assume abc: "a \<in> set ps" "b \<in> set ps" "c \<in> set ps" and gt: "gt_pkg H a c"
    from gt obtain va vc where v: "version a = Some va" "version c = Some vc" "semverGt H va vc"
      by (auto simp: gt_pkg_def split: option.splits)
    show "gt_pkg H a b \<or> gt_pkg H b c"
    proof (cases "version b")
      case None
      with have_version abc(2) show ?thesis by blast
    next
      case (Some vb)
      with nt [of va vb vc] v ver abc show ?thesis
        by (auto simp: gt_pkg_def)
    qed
  qed
qed

lemma map_throw_Inr: "map_throw f xs = Inr ys \<Longrightarrow> list_all2 (\<lambda>x y. f x = Inr y) xs ys"
  by (induction xs arbitrary: ys) (auto split: sum.splits)

lemma map_throw_set:
  "map_throw f xs = Inr ys \<Longrightarrow> y \<in> set ys \<longleftrightarrow> (\<exists>x\<in>set xs. f x = Inr y)"
  by (induction xs arbitrary: ys) (auto split: sum.splits)

lemma set_map_filter': "set (List.map_filter g xs) = {y. \<exists>x\<in>set xs. g x = Some y}"
  by (induction xs) (auto split: option.splits)

lemma set_kept:
  "p \<in> set (List.map_filter (\<lambda>sp. if keep sp then sp else None) sps) \<longleftrightarrow>
     Some p \<in> set sps \<and> keep (Some p)"
  by (auto simp: set_map_filter' split: if_splits)

lemma keep_candidate_Some:
  "keep_candidate H ex (semverMatch_of rg) (Some p) \<longleftrightarrow>
     (\<exists>v. version p = Some v \<and> (ex \<or> (\<not> has_line_terminator rg \<and> semverSatisfies H v rg)))"
  by (auto simp: keep_candidate_def semverMatch_of_def split: option.splits)

lemma candidates_of_Inr:
  assumes "candidates_of H P ex rg lhs = Inr cs"
  obtains sps where "map_throw (sourcePackage_of P) lhs = Inr sps"
    and "cs = array_sort (compare_candidates H ex)
                (List.map_filter (\<lambda>sp. if keep_candidate H ex (semverMatch_of rg) sp then sp else None) sps)"
  using assms by (auto simp: candidates_of_def split: sum.splits)

lemma set_candidates_of:
  assumes "candidates_of H P ex rg lhs = Inr cs"
  shows "p \<in> set cs \<longleftrightarrow>
           (\<exists>h\<in>set lhs. sourcePackage_of P h = Inr (Some p))
           \<and> (\<exists>v. version p = Some v \<and> (ex \<or> (\<not> has_line_terminator rg \<and> semverSatisfies H v rg)))"
proof -
  from assms obtain sps where sps: "map_throw (sourcePackage_of P) lhs = Inr sps"
    and cs: "cs = array_sort (compare_candidates H ex)
                (List.map_filter (\<lambda>sp. if keep_candidate H ex (semverMatch_of rg) sp then sp else None) sps)"
    by (rule candidates_of_Inr)
  have "p \<in> set cs \<longleftrightarrow> Some p \<in> set sps \<and> keep_candidate H ex (semverMatch_of rg) (Some p)"
    by (simp add: cs set_array_sort set_kept)
  then show ?thesis
    by (simp add: map_throw_set [OF sps] keep_candidate_Some)
qed

lemma sorted_candidates_of:
  assumes "candidates_of H P False rg lhs = Inr cs"
    and "strict_weak_on (versions_of cs) (semverGt H)"
  shows "sorted_wrt (\<lambda>a b. \<not> gt_pkg H b a) cs"
proof -
  from assms(1) obtain sps where
    cs: "cs = array_sort (compare_candidates H False) (List.map_filter (\<lambda>sp. if keep_candidate H False (semverMatch_of rg) sp then sp else None) sps)"
    by (rule candidates_of_Inr)
  define kept where "kept = List.map_filter (\<lambda>sp. if keep_candidate H False (semverMatch_of rg) sp then sp else None) sps"
  have "set kept = set cs" by (simp add: cs kept_def set_array_sort)
  then have "versions_of kept = versions_of cs" by (simp add: versions_of_def)
  moreover have "\<forall>p\<in>set kept. version p \<noteq> None"
    by (auto simp: kept_def set_kept keep_candidate_Some)
  ultimately have "strict_weak_on (set kept) (gt_pkg H)"
    using assms(2) by (simp add: strict_weak_on_gt_pkg)
  then have "strict_weak_on (set kept) (\<lambda>x y. compare_candidates H False x y < 0)"
    by (simp add: compare_candidates_lt)
  then have "sorted_wrt (\<lambda>x y. \<not> compare_candidates H False y x < 0) (array_sort (compare_candidates H False) kept)"
    by (rule sorted_array_sort)
  then show ?thesis by (simp add: cs kept_def compare_candidates_lt)
qed

lemma hd_sorted_max:
  assumes "sorted_wrt (\<lambda>a b. \<not> lt b a) cs" and "p \<in> set cs" and "\<not> lt (hd cs) (hd cs)"
  shows "\<not> lt p (hd cs)"
  using assms by (cases cs) auto

lemma candidates_of_explicit:
  assumes "candidates_of H P True rg lhs = Inr cs"
  obtains sps where "map_throw (sourcePackage_of P) lhs = Inr sps"
    and "cs = rev (List.map_filter (\<lambda>sp. if keep_candidate H True (semverMatch_of rg) sp then sp else None) sps)"
  using assms by (auto simp: candidates_of_def array_sort_const compare_candidates_explicit split: sum.splits)

lemma pinTo_of_multi:
  assumes "map_of L ih = Some lhs" and "length lhs > 1"
    and "candidates_of H P ex rg lhs = Inr cs"
  shows "pinTo_of H P L ex depPkgRef workspaceCwd rg ih r =
     (case cs of
        [] \<Rightarrow> Inl (UndefinedRead ''locatorHash'', r)
      | c0 # _ \<Rightarrow>
          Inr (map_of (storedPackages P) (locatorHash c0),
               if length cs > 1 \<and> numDupes_of cs > 0
               then reportWarningOnce
                      (duplicate_message depPkgRef (length cs) (numDupes_of cs) workspaceCwd) r
               else r))"
  using assms by (auto simp: pinTo_of_def Let_def split: list.splits)

lemma sourcePackage_of_lookup:
  assumes "wf_packages P" and "sourcePackage_of P h = Inr (Some p)"
  shows "map_of (storedPackages P) (locatorHash p) = Some p"
  using assms
  by (auto simp: sourcePackage_of_def wf_packages_def split: option.splits)

lemma gt_pkg_irrefl:
  assumes "strict_weak_on (versions_of cs) (semverGt H)" and "p \<in> set cs"
  shows "\<not> gt_pkg H p p"
  using assms unfolding strict_weak_on_def versions_of_def gt_pkg_def
  by (auto split: option.splits)

lemma pinTo_of_multi_wf:
  assumes idx: "map_of L ih = Some lhs" "1 < length lhs"
    and cand: "candidates_of H P ex rg lhs = Inr cs" and ne: "cs \<noteq> []"
    and wf: "wf_packages P"
  shows "pinTo_of H P L ex depPkgRef workspaceCwd rg ih r =
           Inr (Some (hd cs),
                if length cs > 1 \<and> numDupes_of cs > 0
                then reportWarningOnce
                       (duplicate_message depPkgRef (length cs) (numDupes_of cs) workspaceCwd) r
                else r)"
proof -
  from ne obtain c0 rest where cs: "cs = c0 # rest" by (cases cs) auto
  then have "c0 \<in> set cs" by simp
  then obtain h where "sourcePackage_of P h = Inr (Some c0)"
    using set_candidates_of [OF cand, of c0] by blast
  with wf have "map_of (storedPackages P) (locatorHash c0) = Some c0"
    by (rule sourcePackage_of_lookup)
  then show ?thesis
    using pinTo_of_multi [OF idx cand, of depPkgRef workspaceCwd r] by (simp add: cs)
qed

subsection \<open>C1: two or more candidates\<close>

text \<open>
  C1, as claimed: with two or more candidates the selector keeps those that satisfy the
  range (all of them when the entry is explicitly included), sorts them descending by
  version and selects the highest. It fails for an explicitly included entry: with
  \<^verbatim>\<open>--also lib:^2.0.0\<close> and the locators X (2.3.0) and Y (2.1.0) in this order in the
  index, the comparator answers \<^verbatim>\<open>-1\<close> for every pair, the engine reverses the list,
  and the entry is planned to 2.1.0.
\<close>

theorem C1_counterexample:
  "explicitlyIncluded_of also_lib (dep ''lib'' ''^2.0.0'')
   \<and> semverGt semver_fragment ''2.3.0'' ''2.1.0''
   \<and> candidates_of semver_fragment lib_project True ''^2.0.0'' [''X'', ''Y'']
       = Inr [pkg ''Y'' ''2.1.0'', pkg ''X'' ''2.3.0'']
   \<and> pinnableInWorkspace
        (projr (processDependency semver_fragment also_lib lib_project [(''lib'', [''X'', ''Y''])]
                  ''/A'' (''lib'', dep ''lib'' ''^2.0.0'') empty_pd))
       = [(''lib'', pkg ''Y'' ''2.1.0'')]"
  by code_simp

text \<open>
  C1, amended. Let the identity of an entry have two or more locators in the index, each
  with a package record, and let at least one candidate survive the filter. The
  candidates are exactly the (devirtualized) packages with a version that satisfies
  the range, or all the packages with a version when the entry is explicitly included;
  \<^verbatim>\<open>pinTo\<close> is the first of them. When the entry is not explicitly included, they are
  in descending order of version and no candidate has a version greater than the one
  selected. (Nothing is said of the order for an explicitly included entry.)
\<close>

theorem C1_selection:
  assumes idx: "map_of L ih = Some lhs" "1 < length lhs"
    and cand: "candidates_of H P ex rg lhs = Inr cs" and ne: "cs \<noteq> []"
    and wf: "wf_packages P"
    and order: "ex \<or> strict_weak_on (versions_of cs) (semverGt H)"
  shows "(\<forall>p. p \<in> set cs \<longleftrightarrow>
            (\<exists>h\<in>set lhs. sourcePackage_of P h = Inr (Some p))
            \<and> (\<exists>v. version p = Some v
                   \<and> (ex \<or> (\<not> has_line_terminator rg \<and> semverSatisfies H v rg))))
       \<and> (\<exists>r'. pinTo_of H P L ex depPkgRef workspaceCwd rg ih r = Inr (Some (hd cs), r'))
       \<and> (\<not> ex \<longrightarrow> sorted_wrt (\<lambda>a b. \<not> gt_pkg H b a) cs
                    \<and> (\<forall>p\<in>set cs. \<not> gt_pkg H p (hd cs)))"
proof (intro conjI allI impI)
  fix p
  show "p \<in> set cs \<longleftrightarrow>
            (\<exists>h\<in>set lhs. sourcePackage_of P h = Inr (Some p))
            \<and> (\<exists>v. version p = Some v
                   \<and> (ex \<or> (\<not> has_line_terminator rg \<and> semverSatisfies H v rg)))"
    by (rule set_candidates_of [OF cand])
next
  show "\<exists>r'. pinTo_of H P L ex depPkgRef workspaceCwd rg ih r = Inr (Some (hd cs), r')"
    using pinTo_of_multi_wf [OF idx cand ne wf] by simp
next
  assume nex: "\<not> ex"
  with order have sw: "strict_weak_on (versions_of cs) (semverGt H)" by simp
  from cand nex have cand': "candidates_of H P False rg lhs = Inr cs" by simp
  show "sorted_wrt (\<lambda>a b. \<not> gt_pkg H b a) cs"
    using cand' sw by (rule sorted_candidates_of)
  then show "\<forall>p\<in>set cs. \<not> gt_pkg H p (hd cs)"
    using gt_pkg_irrefl [OF sw] ne by (cases cs) auto
qed

text \<open>The witness: the index holds Y (2.1.0) before X (2.3.0); X is selected.\<close>

theorem C1_witness:
  "map_of [(''lib'', [''Y'', ''X''])] ''lib'' = Some [''Y'', ''X'']
   \<and> 1 < length [''Y'', ''X'']
   \<and> candidates_of semver_fragment lib_project False ''^2.0.0'' [''Y'', ''X'']
       = Inr [pkg ''X'' ''2.3.0'', pkg ''Y'' ''2.1.0'']
   \<and> wf_packages lib_project
   \<and> strict_weak_on (versions_of [pkg ''X'' ''2.3.0'', pkg ''Y'' ''2.1.0'']) (semverGt semver_fragment)
   \<and> (\<exists>r'. pinTo_of semver_fragment lib_project [(''lib'', [''Y'', ''X''])] False ''lib:^2.0.0''
              ''/A'' ''^2.0.0'' ''lib'' empty_report = Inr (Some (pkg ''X'' ''2.3.0''), r'))"
proof -
  have 1: "map_of [(''lib'', [''Y'', ''X''])] ''lib'' = Some [''Y'', ''X'']" by simp
  have 2: "1 < length [''Y'', ''X'']" by simp
  have 3: "candidates_of semver_fragment lib_project False ''^2.0.0'' [''Y'', ''X'']
       = Inr [pkg ''X'' ''2.3.0'', pkg ''Y'' ''2.1.0'']" by code_simp
  have 4: "[pkg ''X'' ''2.3.0'', pkg ''Y'' ''2.1.0''] \<noteq> []" by simp
  have 5: "wf_packages lib_project"
    by (simp add: wf_packages_def lib_project_def pkg_def)
  have "versions_of [pkg ''X'' ''2.3.0'', pkg ''Y'' ''2.1.0''] = {''2.3.0'', ''2.1.0''}"
    by (auto simp: versions_of_def pkg_def)
  moreover have "strict_weak_on {''2.3.0'', ''2.1.0''} (semverGt semver_fragment)"
    unfolding strict_weak_on_def by code_simp
  ultimately have 6: "strict_weak_on (versions_of [pkg ''X'' ''2.3.0'', pkg ''Y'' ''2.1.0''])
      (semverGt semver_fragment)" by simp
  then have 7: "False \<or> strict_weak_on (versions_of [pkg ''X'' ''2.3.0'', pkg ''Y'' ''2.1.0''])
      (semverGt semver_fragment)" by simp
  from C1_selection [OF 1 2 3 4 5 7, of "''lib:^2.0.0''" "''/A''" empty_report]
  have "\<exists>r'. pinTo_of semver_fragment lib_project [(''lib'', [''Y'', ''X''])] False ''lib:^2.0.0''
              ''/A'' ''^2.0.0'' ''lib'' empty_report = Inr (Some (pkg ''X'' ''2.3.0''), r')"
    by simp
  with 1 2 3 5 6 show ?thesis by blast
qed

subsection \<open>C3: two candidates of different versions\<close>

lemma array_sort_two:
  "array_sort c [a, b] = (if c b a < 0 then [b, a] else [a, b])"
  by (simp add: array_sort_def Let_def)

lemma sourcePackage_of_plain:
  assumes "map_of (storedPackages P) h = Some p" and "devirtualized p = None"
  shows "sourcePackage_of P h = Inr (Some p)"
  using assms by (simp add: sourcePackage_of_def)

lemma candidates_of_two:
  assumes "map_of (storedPackages P) h1 = Some p1" and "devirtualized p1 = None"
    and "map_of (storedPackages P) h2 = Some p2" and "devirtualized p2 = None"
    and "version p1 = Some v1" and "version p2 = Some v2"
    and "semverSatisfies H v1 rg" and "semverSatisfies H v2 rg" and "\<not> has_line_terminator rg"
    and "semverGt H v1 v2" and "\<not> semverGt H v2 v1"
    and "lhs = [h1, h2] \<or> lhs = [h2, h1]"
  shows "candidates_of H P False rg lhs = Inr [p1, p2]"
  using assms
  by (auto simp: candidates_of_def sourcePackage_of_plain keep_candidate_def semverMatch_of_def
        array_sort_two compare_candidates_def)

lemma numDupes_of_two:
  "numDupes_of [a, b] = (if locatorHash a = locatorHash b then 0 else 1)"
  by (simp add: numDupes_of_def areLocatorsEqual_def)

text \<open>
  C3, as claimed: with the two candidates 2.3.0 (locator X) and 2.1.0 (locator Y), both
  in the range \<^verbatim>\<open>^2.0.0\<close>, the plan pins 2.3.0 and no duplicate warning is emitted.
  The plan does pin 2.3.0, but the warning is emitted: the two locators differ, and
  the count of line 473 compares locators only.
\<close>

theorem C3_counterexample:
  "processDependency semver_fragment no_flags lib_project [(''lib'', [''X'', ''Y''])] ''/A''
     (''lib'', dep ''lib'' ''^2.0.0'') empty_pd
   = Inr \<lparr>log_r =
            \<lparr>lines = [Warning ''Possible duplicate: lib:^2.0.0 has 2 candidates (1 conflicting pairs) in workspace /A''],
             reportedWarnings = [''Possible duplicate: lib:^2.0.0 has 2 candidates (1 conflicting pairs) in workspace /A'']\<rparr>,
          pinnableInWorkspace = [(''lib'', pkg ''X'' ''2.3.0'')],
          reportablePinsInWorkspace = [(''lib:^2.0.0'', Some ''2.3.0'')]\<rparr>"
  by code_simp

text \<open>
  C3, amended. An entry that is not explicitly included and has exactly two candidates,
  with different locators (neither virtual) and versions \<open>v1\<close> greater than \<open>v2\<close>,
  both satisfying the range, is planned to the package of version \<open>v1\<close>, in whichever
  order the index holds the two locators; and the duplicate warning for 2 candidates
  and 1 conflicting pair is reported (once for the same text).
\<close>

theorem C3_two_versions:
  assumes "range_d d = Some rg" and "reaches_selection H opt d rg"
    and "\<not> explicitlyIncluded_of opt d"
    and "map_of L ih = Some lhs" and "lhs = [h1, h2] \<or> lhs = [h2, h1]"
    and "map_of (storedPackages P) h1 = Some p1" and "devirtualized p1 = None"
    and "map_of (storedPackages P) h2 = Some p2" and "devirtualized p2 = None"
    and "locatorHash p1 = h1" and "locatorHash p2 = h2" and "h1 \<noteq> h2"
    and "version p1 = Some v1" and "version p2 = Some v2"
    and "semverSatisfies H v1 rg" and "semverSatisfies H v2 rg" and "\<not> has_line_terminator rg"
    and "semverGt H v1 v2" and "\<not> semverGt H v2 v1" and "v1 \<noteq> rg"
  shows "processDependency H opt P L workspaceCwd (ih, d) s =
     Inr (s\<lparr>log_r := logVerboseInfo opt workspaceCwd
                       (''will pin '' @ pRef (scope d) (name d) (range_d d) @ '' to '' @ v1
                          @ '' in '' @ workspaceCwd)
                       (reportWarningOnce
                          (duplicate_message (pRef (scope d) (name d) (range_d d)) 2 1 workspaceCwd)
                          (log_r s)),
             pinnableInWorkspace := map_set (pinnableInWorkspace s) ih p1,
             reportablePinsInWorkspace :=
               map_set (reportablePinsInWorkspace s) (pRef (scope d) (name d) (range_d d)) (Some v1)\<rparr>)"
proof -
  have cand: "candidates_of H P False rg lhs = Inr [p1, p2]"
    using assms by (intro candidates_of_two) auto
  have len: "1 < length lhs" using assms(5) by auto
  have np: "needsPin H rg" using assms(2,3) by (simp add: reaches_selection_def)
  have "pinTo_of H P L False (pRef (scope d) (name d) (range_d d)) workspaceCwd rg ih
          (report_at_selection H opt workspaceCwd d rg (log_r s))
        = Inr (Some p1, reportWarningOnce
                 (duplicate_message (pRef (scope d) (name d) (range_d d)) 2 1 workspaceCwd) (log_r s))"
    using pinTo_of_multi [OF assms(4) len cand] assms(6,10,11,12) np
    by (simp add: numDupes_of_two report_at_selection_def numeral_2_eq_2)
  then show ?thesis
    using assms(1,2,3,13,20)
    by (simp add: processDependency_selection render_def)
qed

text \<open>The witness: the scenario of the specification, with Y before X in the index.\<close>

theorem C3_witness:
  "range_d (dep ''lib'' ''^2.0.0'') = Some ''^2.0.0''
   \<and> reaches_selection semver_fragment no_flags (dep ''lib'' ''^2.0.0'') ''^2.0.0''
   \<and> \<not> explicitlyIncluded_of no_flags (dep ''lib'' ''^2.0.0'')
   \<and> map_of (storedPackages lib_project) ''X'' = Some (pkg ''X'' ''2.3.0'')
   \<and> map_of (storedPackages lib_project) ''Y'' = Some (pkg ''Y'' ''2.1.0'')
   \<and> semverSatisfies semver_fragment ''2.3.0'' ''^2.0.0''
   \<and> semverSatisfies semver_fragment ''2.1.0'' ''^2.0.0''
   \<and> semverGt semver_fragment ''2.3.0'' ''2.1.0''
   \<and> \<not> semverGt semver_fragment ''2.1.0'' ''2.3.0''
   \<and> pinnableInWorkspace
        (projr (processDependency semver_fragment no_flags lib_project [(''lib'', [''Y'', ''X''])]
                  ''/A'' (''lib'', dep ''lib'' ''^2.0.0'') empty_pd))
       = [(''lib'', pkg ''X'' ''2.3.0'')]
   \<and> lines (log_r
        (projr (processDependency semver_fragment no_flags lib_project [(''lib'', [''Y'', ''X''])]
                  ''/A'' (''lib'', dep ''lib'' ''^2.0.0'') empty_pd)))
       = [Warning (duplicate_message ''lib:^2.0.0'' 2 1 ''/A'')]"
proof -
  have 1: "range_d (dep ''lib'' ''^2.0.0'') = Some ''^2.0.0''" by code_simp
  have 2: "reaches_selection semver_fragment no_flags (dep ''lib'' ''^2.0.0'') ''^2.0.0''"
    by code_simp
  have 3: "\<not> explicitlyIncluded_of no_flags (dep ''lib'' ''^2.0.0'')" by code_simp
  have 4: "map_of [(''lib'', [''Y'', ''X''])] ''lib'' = Some [''Y'', ''X'']" by simp
  have 5: "[''Y'', ''X''] = [''X'', ''Y''] \<or> [''Y'', ''X''] = [''Y'', ''X'']" by simp
  have 6: "map_of (storedPackages lib_project) ''X'' = Some (pkg ''X'' ''2.3.0'')" by code_simp
  have 7: "devirtualized (pkg ''X'' ''2.3.0'') = None" by code_simp
  have 8: "map_of (storedPackages lib_project) ''Y'' = Some (pkg ''Y'' ''2.1.0'')" by code_simp
  have 9: "devirtualized (pkg ''Y'' ''2.1.0'') = None" by code_simp
  have 10: "locatorHash (pkg ''X'' ''2.3.0'') = ''X''" by code_simp
  have 11: "locatorHash (pkg ''Y'' ''2.1.0'') = ''Y''" by code_simp
  have 12: "''X'' \<noteq> ''Y''" by simp
  have 13: "version (pkg ''X'' ''2.3.0'') = Some ''2.3.0''" by code_simp
  have 14: "version (pkg ''Y'' ''2.1.0'') = Some ''2.1.0''" by code_simp
  have 15: "semverSatisfies semver_fragment ''2.3.0'' ''^2.0.0''" by code_simp
  have 16: "semverSatisfies semver_fragment ''2.1.0'' ''^2.0.0''" by code_simp
  have 17: "\<not> has_line_terminator ''^2.0.0''" by code_simp
  have 18: "semverGt semver_fragment ''2.3.0'' ''2.1.0''" by code_simp
  have 19: "\<not> semverGt semver_fragment ''2.1.0'' ''2.3.0''" by code_simp
  have 20: "''2.3.0'' \<noteq> ''^2.0.0''" by simp
  have pr: "pRef (scope (dep ''lib'' ''^2.0.0'')) (name (dep ''lib'' ''^2.0.0''))
              (range_d (dep ''lib'' ''^2.0.0'')) = ''lib:^2.0.0''" by code_simp
  have lv: "logVerboseInfo no_flags w m r = r" for w m r
    by (simp add: logVerboseInfo_def no_flags_def)
  have "processDependency semver_fragment no_flags lib_project [(''lib'', [''Y'', ''X''])]
          ''/A'' (''lib'', dep ''lib'' ''^2.0.0'') empty_pd
        = Inr (empty_pd\<lparr>log_r := reportWarningOnce (duplicate_message ''lib:^2.0.0'' 2 1 ''/A'')
                                     (log_r empty_pd),
                 pinnableInWorkspace := map_set (pinnableInWorkspace empty_pd) ''lib'' (pkg ''X'' ''2.3.0''),
                 reportablePinsInWorkspace :=
                   map_set (reportablePinsInWorkspace empty_pd) ''lib:^2.0.0'' (Some ''2.3.0'')\<rparr>)"
    using C3_two_versions [OF 1 2 3 4 5 6 7 8 9 10 11 12 13 14 15 16 17 18 19 20, of "''/A''" empty_pd]
    by (simp only: pr lv)
  then have "pinnableInWorkspace
        (projr (processDependency semver_fragment no_flags lib_project [(''lib'', [''Y'', ''X''])]
                  ''/A'' (''lib'', dep ''lib'' ''^2.0.0'') empty_pd))
       = [(''lib'', pkg ''X'' ''2.3.0'')]"
    and "lines (log_r
        (projr (processDependency semver_fragment no_flags lib_project [(''lib'', [''Y'', ''X''])]
                  ''/A'' (''lib'', dep ''lib'' ''^2.0.0'') empty_pd)))
       = [Warning (duplicate_message ''lib:^2.0.0'' 2 1 ''/A'')]"
    by (simp_all add: empty_pd_def empty_report_def reportWarningOnce_def reportWarning_def)
  with 1 2 3 6 8 15 16 18 19 show ?thesis by simp
qed

subsection \<open>C5: the duplicate warning\<close>

lemma finite_pair_indices: "finite (pair_indices Q xs)"
proof -
  have "pair_indices Q xs \<subseteq> {..<length xs} \<times> {..<length xs}"
    by (auto simp: pair_indices_def)
  then show ?thesis by (rule finite_subset) simp
qed

lemma pair_indices_Cons:
  "pair_indices Q (v # ws) =
     (\<lambda>j. (0, Suc j)) ` {j. j < length ws \<and> Q (v, ws ! j)}
     \<union> (\<lambda>(i, j). (Suc i, Suc j)) ` pair_indices Q ws"
proof (intro set_eqI iffI)
  fix x assume x: "x \<in> pair_indices Q (v # ws)"
  obtain i j where ij: "x = (i, j)" by (cases x)
  with x have h: "i < j" "j < Suc (length ws)" "Q ((v # ws) ! i, (v # ws) ! j)"
    by (auto simp: pair_indices_def)
  then obtain j' where j': "j = Suc j'" by (cases j) auto
  show "x \<in> (\<lambda>j. (0, Suc j)) ` {j. j < length ws \<and> Q (v, ws ! j)}
     \<union> (\<lambda>(i, j). (Suc i, Suc j)) ` pair_indices Q ws"
  proof (cases i)
    case 0
    with h j' ij show ?thesis by auto
  next
    case (Suc i')
    with h j' have "(i', j') \<in> pair_indices Q ws" by (auto simp: pair_indices_def)
    with Suc j' ij show ?thesis by force
  qed
next
  fix x assume "x \<in> (\<lambda>j. (0, Suc j)) ` {j. j < length ws \<and> Q (v, ws ! j)}
     \<union> (\<lambda>(i, j). (Suc i, Suc j)) ` pair_indices Q ws"
  then show "x \<in> pair_indices Q (v # ws)"
    by (auto simp: pair_indices_def)
qed

lemma length_filter_candidatePairs:
  "length (filter Q (candidatePairs xs)) = card (pair_indices Q xs)"
proof (induction xs)
  case Nil
  then show ?case by (simp add: pair_indices_def)
next
  case (Cons v ws)
  let ?A = "(\<lambda>j. (0::nat, Suc j)) ` {j. j < length ws \<and> Q (v, ws ! j)}"
  let ?B = "(\<lambda>(i, j). (Suc i, Suc j)) ` pair_indices Q ws"
  have fin: "finite ?A" "finite ?B" by (simp_all add: finite_pair_indices)
  have disj: "?A \<inter> ?B = {}" by auto
  have cA: "card ?A = length (filter (\<lambda>w. Q (v, w)) ws)"
    by (simp add: card_image inj_on_def length_filter_conv_card)
  have cB: "card ?B = card (pair_indices Q ws)"
    by (rule card_image) (auto simp: inj_on_def)
  have "length (filter Q (candidatePairs (v # ws)))
        = length (filter (\<lambda>w. Q (v, w)) ws) + length (filter Q (candidatePairs ws))"
    by (simp add: filter_map comp_def)
  also have "\<dots> = card ?A + card ?B" by (simp add: cA cB Cons.IH)
  also have "\<dots> = card (?A \<union> ?B)" using fin disj by (simp add: card_Un_disjoint)
  finally show ?case by (simp add: pair_indices_Cons)
qed

lemma numDupes_of_card:
  "numDupes_of cs =
     card {(i, j). i < j \<and> j < length cs \<and> locatorHash (cs ! i) \<noteq> locatorHash (cs ! j)}"
proof -
  have "numDupes_of cs = card (pair_indices (\<lambda>(a, b). \<not> areLocatorsEqual a b) cs)"
    by (simp add: numDupes_of_def length_filter_candidatePairs)
  then show ?thesis by (simp add: pair_indices_def areLocatorsEqual_def)
qed

text \<open>
  C5, as claimed: one duplicate warning per pair of candidates that are not the same
  locator. With three locators of version 1.0.0 there are three such pairs, and one
  warning.
\<close>

theorem C5_counterexample:
  "numDupes_of [pkg ''A1'' ''1.0.0'', pkg ''A2'' ''1.0.0'', pkg ''A3'' ''1.0.0''] = 3
   \<and> processDependency semver_fragment no_flags dup_project [(''lib'', [''A1'', ''A2'', ''A3''])] ''/A''
       (''lib'', dep ''lib'' ''^1.0.0'') empty_pd
     = Inr \<lparr>log_r =
              \<lparr>lines = [Warning ''Possible duplicate: lib:^1.0.0 has 3 candidates (3 conflicting pairs) in workspace /A''],
               reportedWarnings = [''Possible duplicate: lib:^1.0.0 has 3 candidates (3 conflicting pairs) in workspace /A'']\<rparr>,
            pinnableInWorkspace = [(''lib'', pkg ''A1'' ''1.0.0'')],
            reportablePinsInWorkspace = [(''lib:^1.0.0'', Some ''1.0.0'')]\<rparr>"
  by code_simp

text \<open>
  C5, amended. When two or more candidates survive and some pair of them differs by
  locator, the selection succeeds with the first candidate, and exactly one line is
  added to the report: the duplicate warning, which names the number of candidates and
  the number of pairs of positions whose locators differ (no line when a warning with
  the same text was reported before). When the entry is not explicitly included, no
  candidate has a version greater than the selected one.
\<close>

theorem C5_one_warning:
  assumes idx: "map_of L ih = Some lhs" "1 < length lhs"
    and cand: "candidates_of H P ex rg lhs = Inr cs" and len: "1 < length cs"
    and dupes: "0 < numDupes_of cs"
    and wf: "wf_packages P"
    and order: "ex \<or> strict_weak_on (versions_of cs) (semverGt H)"
  shows "(\<exists>r'. pinTo_of H P L ex depPkgRef workspaceCwd rg ih r = Inr (Some (hd cs), r')
             \<and> lines r' = lines r @
                 (if duplicate_message depPkgRef (length cs) (numDupes_of cs) workspaceCwd
                       \<in> set (reportedWarnings r)
                  then []
                  else [Warning (duplicate_message depPkgRef (length cs) (numDupes_of cs) workspaceCwd)]))
       \<and> numDupes_of cs =
           card {(i, j). i < j \<and> j < length cs \<and> locatorHash (cs ! i) \<noteq> locatorHash (cs ! j)}
       \<and> (\<not> ex \<longrightarrow> (\<forall>p\<in>set cs. \<not> gt_pkg H p (hd cs)))"
proof (intro conjI impI)
  from len have ne: "cs \<noteq> []" by auto
  show "\<exists>r'. pinTo_of H P L ex depPkgRef workspaceCwd rg ih r = Inr (Some (hd cs), r')
             \<and> lines r' = lines r @
                 (if duplicate_message depPkgRef (length cs) (numDupes_of cs) workspaceCwd
                       \<in> set (reportedWarnings r)
                  then []
                  else [Warning (duplicate_message depPkgRef (length cs) (numDupes_of cs) workspaceCwd)])"
    using pinTo_of_multi_wf [OF idx cand ne wf, of depPkgRef workspaceCwd r] len dupes
    by (simp add: reportWarningOnce_def reportWarning_def)
  show "numDupes_of cs =
           card {(i, j). i < j \<and> j < length cs \<and> locatorHash (cs ! i) \<noteq> locatorHash (cs ! j)}"
    by (rule numDupes_of_card)
  assume nex: "\<not> ex"
  with order have sw: "strict_weak_on (versions_of cs) (semverGt H)" by simp
  from cand nex have "candidates_of H P False rg lhs = Inr cs" by simp
  then have "sorted_wrt (\<lambda>a b. \<not> gt_pkg H b a) cs"
    using sw by (rule sorted_candidates_of)
  then show "\<forall>p\<in>set cs. \<not> gt_pkg H p (hd cs)"
    using gt_pkg_irrefl [OF sw] ne by (cases cs) auto
qed

text \<open>The witness: the three locators of version 1.0.0.\<close>

theorem C5_witness:
  "map_of [(''lib'', [''A1'', ''A2'', ''A3''])] ''lib'' = Some [''A1'', ''A2'', ''A3'']
   \<and> candidates_of semver_fragment dup_project False ''^1.0.0'' [''A1'', ''A2'', ''A3'']
       = Inr [pkg ''A1'' ''1.0.0'', pkg ''A2'' ''1.0.0'', pkg ''A3'' ''1.0.0'']
   \<and> 0 < numDupes_of [pkg ''A1'' ''1.0.0'', pkg ''A2'' ''1.0.0'', pkg ''A3'' ''1.0.0'']
   \<and> wf_packages dup_project
   \<and> strict_weak_on (versions_of [pkg ''A1'' ''1.0.0'', pkg ''A2'' ''1.0.0'', pkg ''A3'' ''1.0.0''])
        (semverGt semver_fragment)
   \<and> (\<exists>r'. pinTo_of semver_fragment dup_project [(''lib'', [''A1'', ''A2'', ''A3''])] False
              ''lib:^1.0.0'' ''/A'' ''^1.0.0'' ''lib'' empty_report
            = Inr (Some (pkg ''A1'' ''1.0.0''), r')
          \<and> lines r' = [Warning ''Possible duplicate: lib:^1.0.0 has 3 candidates (3 conflicting pairs) in workspace /A''])"
proof -
  let ?cs = "[pkg ''A1'' ''1.0.0'', pkg ''A2'' ''1.0.0'', pkg ''A3'' ''1.0.0'']"
  have 1: "map_of [(''lib'', [''A1'', ''A2'', ''A3''])] ''lib'' = Some [''A1'', ''A2'', ''A3'']"
    by simp
  have 2: "1 < length [''A1'', ''A2'', ''A3'']" by simp
  have 3: "candidates_of semver_fragment dup_project False ''^1.0.0'' [''A1'', ''A2'', ''A3'']
       = Inr ?cs" by code_simp
  have 4: "1 < length ?cs" by simp
  have nd: "numDupes_of ?cs = 3" by code_simp
  then have 5: "0 < numDupes_of ?cs" by simp
  have 6: "wf_packages dup_project"
    by (simp add: wf_packages_def dup_project_def pkg_def)
  have "versions_of ?cs = {''1.0.0''}"
    by (auto simp: versions_of_def pkg_def)
  moreover have "strict_weak_on {''1.0.0''} (semverGt semver_fragment)"
    unfolding strict_weak_on_def by code_simp
  ultimately have 7: "strict_weak_on (versions_of ?cs) (semverGt semver_fragment)" by simp
  then have 8: "False \<or> strict_weak_on (versions_of ?cs) (semverGt semver_fragment)" by simp
  have msg: "duplicate_message ''lib:^1.0.0'' 3 3 ''/A''
      = ''Possible duplicate: lib:^1.0.0 has 3 candidates (3 conflicting pairs) in workspace /A''"
    by code_simp
  have l3: "length ?cs = 3" by simp
  have "\<exists>r'. pinTo_of semver_fragment dup_project [(''lib'', [''A1'', ''A2'', ''A3''])] False
              ''lib:^1.0.0'' ''/A'' ''^1.0.0'' ''lib'' empty_report
            = Inr (Some (pkg ''A1'' ''1.0.0''), r')
          \<and> lines r' = [Warning ''Possible duplicate: lib:^1.0.0 has 3 candidates (3 conflicting pairs) in workspace /A'']"
    using C5_one_warning [OF 1 2 3 4 5 6 8, of "''lib:^1.0.0''" "''/A''" empty_report, THEN conjunct1]
    unfolding l3 nd msg by (simp add: empty_report_def)
  with 1 3 5 6 7 show ?thesis by blast
qed

subsection \<open>C9: the Resolution Index\<close>

lemma lookup_set_map_set:
  "lookup_set (map_set m key ls) k = (if k = key then set ls else lookup_set m k)"
  by (simp add: lookup_set_def map_of_map_set)

lemma set_set_add: "set (set_add s x) = insert x (set s)"
  by (auto simp: set_add_def)

lemma distinct_set_add: "distinct s \<Longrightarrow> distinct (set_add s x)"
  by (simp add: set_add_def)

lemma resolved_locators_Cons:
  "resolved_locators P ((dh, lh) # rest) k =
     (case map_of (storedDescriptors P) dh of
        None \<Rightarrow> resolved_locators P rest k
      | Some d \<Rightarrow> if identHash d = k then insert lh (resolved_locators P rest k)
                  else resolved_locators P rest k)"
  by (auto simp: resolved_locators_def split: option.splits)

lemma loop_lookup_set:
  "createLocatorsByIdentMap_loop P rest m = Inr L \<Longrightarrow>
     lookup_set L k = lookup_set m k \<union> resolved_locators P rest k"
proof (induction rest arbitrary: m)
  case Nil
  then show ?case by (simp add: resolved_locators_def)
next
  case (Cons a rest)
  obtain dh lh where a: "a = (dh, lh)" by (cases a)
  from Cons.prems obtain d where d: "map_of (storedDescriptors P) dh = Some d"
    by (auto simp: a split: option.splits)
  show ?case
  proof (cases "map_of m (identHash d)")
    case None
    with Cons.prems d have "createLocatorsByIdentMap_loop P rest (map_set m (identHash d) [lh]) = Inr L"
      by (simp add: a)
    from Cons.IH [OF this]
    have "lookup_set L k = (if k = identHash d then {lh} else lookup_set m k)
            \<union> resolved_locators P rest k"
      by (simp add: lookup_set_map_set)
    moreover have "lookup_set m (identHash d) = {}" using None by (simp add: lookup_set_def)
    ultimately show ?thesis
      by (auto simp: a d resolved_locators_Cons)
  next
    case (Some locators)
    with Cons.prems d
    have "createLocatorsByIdentMap_loop P rest (map_set m (identHash d) (set_add locators lh)) = Inr L"
      by (simp add: a)
    from Cons.IH [OF this]
    have "lookup_set L k = (if k = identHash d then insert lh (set locators) else lookup_set m k)
            \<union> resolved_locators P rest k"
      by (simp add: lookup_set_map_set set_set_add)
    moreover have "lookup_set m (identHash d) = set locators" using Some by (simp add: lookup_set_def)
    ultimately show ?thesis
      by (auto simp: a d resolved_locators_Cons)
  qed
qed

lemma map_set_preserves:
  assumes "\<forall>k ls. map_of m k = Some ls \<longrightarrow> Q ls" and "Q new"
  shows "\<forall>k ls. map_of (map_set m key new) k = Some ls \<longrightarrow> Q ls"
proof (intro allI impI)
  fix k ls assume h: "map_of (map_set m key new) k = Some ls"
  show "Q ls"
  proof (cases "k = key")
    case True
    with h have "ls = new" by (simp add: map_of_map_set)
    with assms(2) show ?thesis by simp
  next
    case False
    with h have "map_of m k = Some ls" by (simp add: map_of_map_set)
    with assms(1) show ?thesis by blast
  qed
qed

lemma loop_preserves:
  assumes "createLocatorsByIdentMap_loop P rest m = Inr L"
    and "\<forall>k ls. map_of m k = Some ls \<longrightarrow> Q ls"
    and "\<And>lh. Q [lh]" and "\<And>ls lh. Q ls \<Longrightarrow> Q (set_add ls lh)"
  shows "\<forall>k ls. map_of L k = Some ls \<longrightarrow> Q ls"
  using assms(1,2)
proof (induction rest arbitrary: m)
  case Nil
  from Nil(1) have "L = m" by simp
  with Nil(2) show ?case by blast
next
  case (Cons a rest)
  obtain dh lh where a: "a = (dh, lh)" by (cases a)
  from Cons.prems(1) obtain d where d: "map_of (storedDescriptors P) dh = Some d"
    by (auto simp: a split: option.splits)
  show ?case
  proof (cases "map_of m (identHash d)")
    case None
    with Cons.prems(1) d
    have "createLocatorsByIdentMap_loop P rest (map_set m (identHash d) [lh]) = Inr L"
      by (simp add: a)
    moreover have "\<forall>k ls. map_of (map_set m (identHash d) [lh]) k = Some ls \<longrightarrow> Q ls"
      using Cons.prems(2) assms(3) by (rule map_set_preserves)
    ultimately show ?thesis by (rule Cons.IH)
  next
    case (Some locators)
    with Cons.prems(1) d
    have "createLocatorsByIdentMap_loop P rest (map_set m (identHash d) (set_add locators lh)) = Inr L"
      by (simp add: a)
    moreover have "\<forall>k ls. map_of (map_set m (identHash d) (set_add locators lh)) k = Some ls
                     \<longrightarrow> Q ls"
    proof (rule map_set_preserves [OF Cons.prems(2)])
      from Cons.prems(2) Some have "Q locators" by blast
      then show "Q (set_add locators lh)" by (rule assms(4))
    qed
    ultimately show ?thesis by (rule Cons.IH)
  qed
qed

lemma loop_distinct:
  assumes "createLocatorsByIdentMap_loop P rest [] = Inr L"
  shows "\<forall>k ls. map_of L k = Some ls \<longrightarrow> distinct ls \<and> ls \<noteq> []"
  using assms
proof (rule loop_preserves)
  show "\<forall>k ls. map_of [] k = Some ls \<longrightarrow> distinct ls \<and> ls \<noteq> []" by simp
  show "\<And>lh. distinct [lh] \<and> [lh] \<noteq> []" by simp
  show "\<And>ls lh. distinct ls \<and> ls \<noteq> [] \<Longrightarrow> distinct (set_add ls lh) \<and> set_add ls lh \<noteq> []"
    by (simp add: set_add_def)
qed

lemma sourcePackage_of_virtual:
  assumes "map_of (storedPackages P) h = Some p" and "devirtualized p = Some src"
  shows "sourcePackage_of P h = Inr (map_of (storedPackages P) src)"
  using assms by (simp add: sourcePackage_of_def)

text \<open>
  C9, as claimed: while the index is built, a virtual locator is replaced by its
  non-virtual locator, so the index holds devirtualized locators only. It fails on a
  project whose dependency \<^verbatim>\<open>styled\<close> resolves to the virtual locator V: the index
  holds V.
\<close>

theorem C9_counterexample:
  "createLocatorsByIdentMap virtual_project = Inr [(''styled'', [''V''])]
   \<and> map_of (storedPackages virtual_project) ''V''
       = Some \<lparr>locatorHash = ''V'', version = Some ''5.3.0'', devirtualized = Some ''S''\<rparr>
   \<and> isVirtualLocator \<lparr>locatorHash = ''V'', version = Some ''5.3.0'', devirtualized = Some ''S''\<rparr>"
  by code_simp

text \<open>
  C9, amended. The index maps every identity to the locators, as they are stored,
  that the resolutions of the descriptors of this identity point to: each once, and
  never an empty set. A virtual locator is replaced by the package of its
  devirtualized locator later, by the \<^verbatim>\<open>map\<close> callback of \<^verbatim>\<open>processDependency\<close>
  (which runs when the identity has two or more locators).
\<close>

theorem C9_index_holds_resolved_locators:
  assumes "createLocatorsByIdentMap P = Inr L"
  shows "(\<forall>k. lookup_set L k = resolved_locators P (storedResolutions P) k)
       \<and> (\<forall>k ls. map_of L k = Some ls \<longrightarrow> distinct ls \<and> ls \<noteq> [])
       \<and> (\<forall>h p src. map_of (storedPackages P) h = Some p \<and> devirtualized p = Some src \<longrightarrow>
             sourcePackage_of P h = Inr (map_of (storedPackages P) src))"
proof -
  have loop: "createLocatorsByIdentMap_loop P (storedResolutions P) [] = Inr L"
    using assms by (simp add: createLocatorsByIdentMap_def)
  have A: "\<forall>k. lookup_set L k = resolved_locators P (storedResolutions P) k"
  proof
    fix k :: IdentHash
    have "lookup_set [] k = ({} :: LocatorHash set)" by (simp add: lookup_set_def)
    with loop_lookup_set [OF loop, of k]
    show "lookup_set L k = resolved_locators P (storedResolutions P) k" by simp
  qed
  have B: "\<forall>k ls. map_of L k = Some ls \<longrightarrow> distinct ls \<and> ls \<noteq> []"
    using loop by (rule loop_distinct)
  have C: "\<forall>h p src. map_of (storedPackages P) h = Some p \<and> devirtualized p = Some src \<longrightarrow>
             sourcePackage_of P h = Inr (map_of (storedPackages P) src)"
    by (simp add: sourcePackage_of_virtual)
  show ?thesis by (intro conjI) (rule A, rule B, rule C)
qed

text \<open>The witness: the project with the virtual locator V.\<close>

theorem C9_witness:
  "createLocatorsByIdentMap virtual_project = Inr [(''styled'', [''V''])]
   \<and> lookup_set [(''styled'', [''V''])] ''styled'' = {''V''}
   \<and> resolved_locators virtual_project (storedResolutions virtual_project) ''styled'' = {''V''}
   \<and> sourcePackage_of virtual_project ''V'' = Inr (Some (pkg ''S'' ''5.3.0''))"
proof -
  have 1: "createLocatorsByIdentMap virtual_project = Inr [(''styled'', [''V''])]" by code_simp
  have 2: "lookup_set [(''styled'', [''V''])] ''styled'' = {''V''}" by (simp add: lookup_set_def)
  have 3: "map_of (storedPackages virtual_project) ''V''
       = Some \<lparr>locatorHash = ''V'', version = Some ''5.3.0'', devirtualized = Some ''S''\<rparr>
       \<and> devirtualized \<lparr>locatorHash = ''V'', version = Some ''5.3.0'', devirtualized = Some ''S''\<rparr>
           = Some ''S''" by code_simp
  have 4: "map_of (storedPackages virtual_project) ''S'' = Some (pkg ''S'' ''5.3.0'')" by code_simp
  note th = C9_index_holds_resolved_locators [OF 1]
  have "lookup_set [(''styled'', [''V''])] ''styled''
      = resolved_locators virtual_project (storedResolutions virtual_project) ''styled''"
    using th [THEN conjunct1, THEN spec, of "''styled''"] .
  moreover have "sourcePackage_of virtual_project ''V''
      = Inr (map_of (storedPackages virtual_project) ''S'')"
    using th [THEN conjunct2, THEN conjunct2, THEN spec, THEN spec, THEN spec, THEN mp, OF 3] .
  ultimately show ?thesis using 1 2 4 by simp
qed

subsection \<open>C10: the dry run\<close>

lemma pin_workspace_dry:
  assumes "dryRun opt"
  shows "disk_of_pin (pin_workspace opt plan w (r, d)) = d"
  using assms
  by (auto simp: pin_workspace_def disk_of_pin_def Let_def split: option.splits sum.splits prod.splits)

lemma pin_workspaces_dry:
  assumes "dryRun opt"
  shows "disk_of_pin (pin_workspaces opt plan visited ws (r, d)) = d"
proof (induction ws arbitrary: visited r d)
  case Nil
  then show ?case by (simp add: disk_of_pin_def)
next
  case (Cons w ws)
  show ?case
  proof (cases "pin_workspace opt plan w (r, d)")
    case (Inl x)
    obtain e w' r' d' where x: "x = (e, w', r', d')" by (cases x)
    with Inl pin_workspace_dry [OF assms, of plan w r d] have "d' = d"
      by (simp add: disk_of_pin_def)
    with Inl x show ?thesis by (simp add: disk_of_pin_def)
  next
    case (Inr y)
    obtain w' r' d' where y: "y = (w', r', d')" by (cases y)
    with Inr pin_workspace_dry [OF assms, of plan w r d] have "d' = d"
      by (simp add: disk_of_pin_def)
    with Inr y Cons.IH [of "visited @ [w']" r' d] show ?thesis by simp
  qed
qed

lemma pinDependencies_dry:
  assumes "dryRun opt"
  shows "disk (final_state (pinDependencies opt st)) = disk st"
  using pin_workspaces_dry [OF assms, of "pinnableByWorkspaceCwd st" "[]" "workspaces st"
      "(log_c st)\<lparr>lines := lines (log_c st) @ [Json (reportablePinsByWorkspaceCwd st)]\<rparr>" "disk st"]
  by (auto simp: pinDependencies_def final_state_def disk_of_pin_def Let_def split: sum.splits)

lemma pinDependencies_plan:
  "pinnableByWorkspaceCwd (final_state (pinDependencies opt st)) = pinnableByWorkspaceCwd st
   \<and> reportablePinsByWorkspaceCwd (final_state (pinDependencies opt st)) = reportablePinsByWorkspaceCwd st"
  by (auto simp: pinDependencies_def final_state_def Let_def split: sum.splits)

lemma findPinnable_loop_disk:
  "disk (final_state (findPinnable_loop H opt P ws st)) = disk st"
proof (induction ws arbitrary: st)
  case Nil
  then show ?case by (simp add: final_state_def)
next
  case (Cons w ws)
  show ?case
  proof (cases "findPinnableInWorkspace H opt P (locatorsByIdent_c st) w (log_c st)")
    case (Inl x)
    then show ?thesis
      by (cases x) (simp add: final_state_def store_workspace_plan_def)
  next
    case (Inr s)
    with Cons.IH [of "store_workspace_plan w s st"] show ?thesis
      by (simp add: store_workspace_plan_def)
  qed
qed

lemma findPinnableDependencies_disk:
  "disk (final_state (findPinnableDependencies H opt P st)) = disk st"
  by (simp add: findPinnableDependencies_def findPinnable_loop_disk)

text \<open>No step before \<^verbatim>\<open>pinDependencies\<close> reads the flag.\<close>

lemma processDependency_dry_irrelevant:
  "processDependency H (opt\<lparr>dryRun := b\<rparr>) P L cw entry s = processDependency H opt P L cw entry s"
  by (simp add: processDependency_def explicitlyIncluded_of_def isDependencyExplicitlyIncluded_def
        logVerboseWarning_def logVerboseInfo_def Let_def
      cong: option.case_cong sum.case_cong prod.case_cong if_cong)

lemma processDependencies_dry_irrelevant:
  "processDependencies H (opt\<lparr>dryRun := b\<rparr>) P L cw es s = processDependencies H opt P L cw es s"
  by (induction es arbitrary: s) (simp_all add: processDependency_dry_irrelevant split: sum.splits)

lemma findPinnableInWorkspace_dry_irrelevant:
  "findPinnableInWorkspace H (opt\<lparr>dryRun := b\<rparr>) P L w r = findPinnableInWorkspace H opt P L w r"
  by (simp add: findPinnableInWorkspace_def processDependencies_dry_irrelevant Let_def
      cong: sum.case_cong if_cong)

lemma findPinnable_loop_dry_irrelevant:
  "findPinnable_loop H (opt\<lparr>dryRun := b\<rparr>) P ws st = findPinnable_loop H opt P ws st"
  by (induction ws arbitrary: st) (simp_all add: findPinnableInWorkspace_dry_irrelevant split: sum.splits)

lemma findPinnableDependencies_dry_irrelevant:
  "findPinnableDependencies H (opt\<lparr>dryRun := b\<rparr>) P st = findPinnableDependencies H opt P st"
  by (simp add: findPinnableDependencies_def findPinnable_loop_dry_irrelevant)

lemma filter_workspaces_dry_irrelevant:
  "filter_workspaces (opt\<lparr>dryRun := b\<rparr>) given ws r = filter_workspaces opt given ws r"
  by (induction ws arbitrary: r)
     (simp_all add: include_workspace_def logVerboseWarning_def Let_def
        cong: option.case_cong sum.case_cong prod.case_cong if_cong)

lemma gatherWorkspaces_dry_irrelevant:
  "gatherWorkspaces (opt\<lparr>dryRun := b\<rparr>) P r = gatherWorkspaces opt P r"
  by (simp add: gatherWorkspaces_def filter_workspaces_dry_irrelevant
      cong: option.case_cong if_cong)

lemma pin_entry_outcome:
  "entries_outcome (pin_entry p en (m, r, n)) = entries_outcome (pin_entry p en (m, r', n))"
  by (auto simp: pin_entry_def entries_outcome_def Let_def split: option.splits)

lemma pin_entries_outcome:
  "entries_outcome (pin_entries p es (m, r, n)) = entries_outcome (pin_entries p es (m, r', n))"
proof (induction es arbitrary: m r r' n)
  case Nil
  then show ?case by (simp add: entries_outcome_def)
next
  case (Cons en es)
  from pin_entry_outcome [of p en m r n r']
  consider (err) e m1 r1 r1' n1 where "pin_entry p en (m, r, n) = Inl (e, m1, r1, n1)"
      "pin_entry p en (m, r', n) = Inl (e, m1, r1', n1)"
    | (ok) m1 r1 r1' n1 where "pin_entry p en (m, r, n) = Inr (m1, r1, n1)"
      "pin_entry p en (m, r', n) = Inr (m1, r1', n1)"
    by (auto simp: entries_outcome_def split: sum.splits prod.splits)
  then show ?case
  proof cases
    case err
    then show ?thesis by (simp add: entries_outcome_def)
  next
    case ok
    with Cons.IH [of m1 r1 n1 r1'] show ?thesis by simp
  qed
qed

lemma pin_workspace_outcome:
  "workspace_outcome (pin_workspace opt plan w (r, d))
   = workspace_outcome (pin_workspace opt' plan w (r', d'))"
proof (cases "map_of plan (cwd w)")
  case None
  then show ?thesis by (simp add: pin_workspace_def workspace_outcome_def)
next
  case (Some needsPinning)
  from pin_entries_outcome [of "manifestPath_of (cwd w)" needsPinning "manifest_w w" r 0 r']
  consider (err) e m1 r1 r1' n1 where
      "pin_entries (manifestPath_of (cwd w)) needsPinning (manifest_w w, r, 0) = Inl (e, m1, r1, n1)"
      "pin_entries (manifestPath_of (cwd w)) needsPinning (manifest_w w, r', 0) = Inl (e, m1, r1', n1)"
    | (ok) m1 r1 r1' n1 where
      "pin_entries (manifestPath_of (cwd w)) needsPinning (manifest_w w, r, 0) = Inr (m1, r1, n1)"
      "pin_entries (manifestPath_of (cwd w)) needsPinning (manifest_w w, r', 0) = Inr (m1, r1', n1)"
    by (auto simp: entries_outcome_def split: sum.splits prod.splits)
  then show ?thesis
    using Some by cases (simp_all add: pin_workspace_def workspace_outcome_def Let_def)
qed

lemma pin_workspaces_outcome:
  "workspace_outcome (pin_workspaces opt plan visited ws (r, d))
   = workspace_outcome (pin_workspaces opt' plan visited ws (r', d'))"
proof (induction ws arbitrary: visited r d r' d')
  case Nil
  then show ?case by (simp add: workspace_outcome_def)
next
  case (Cons w ws)
  from pin_workspace_outcome [of opt plan w r d opt' r' d']
  consider (err) e w1 r1 d1 r1' d1' where
      "pin_workspace opt plan w (r, d) = Inl (e, w1, r1, d1)"
      "pin_workspace opt' plan w (r', d') = Inl (e, w1, r1', d1')"
    | (ok) w1 r1 d1 r1' d1' where
      "pin_workspace opt plan w (r, d) = Inr (w1, r1, d1)"
      "pin_workspace opt' plan w (r', d') = Inr (w1, r1', d1')"
    by (auto simp: workspace_outcome_def split: sum.splits prod.splits)
  then show ?case
  proof cases
    case err
    then show ?thesis by (simp add: workspace_outcome_def)
  next
    case ok
    with Cons.IH [of "visited @ [w1]" r1 d1 r1' d1'] show ?thesis by simp
  qed
qed

lemma pinDependencies_workspaces:
  "workspaces (final_state (pinDependencies opt st)) = workspaces (final_state (pinDependencies opt' st))
   \<and> isl (pinDependencies opt st) = isl (pinDependencies opt' st)"
  using pin_workspaces_outcome [of opt "pinnableByWorkspaceCwd st" "[]" "workspaces st"
      "(log_c st)\<lparr>lines := lines (log_c st) @ [Json (reportablePinsByWorkspaceCwd st)]\<rparr>" "disk st"
      opt' "(log_c st)\<lparr>lines := lines (log_c st) @ [Json (reportablePinsByWorkspaceCwd st)]\<rparr>" "disk st"]
  by (auto simp: pinDependencies_def final_state_def workspace_outcome_def Let_def
        split: sum.splits prod.splits)

lemma pin_entry_lines:
  "set (lines r) \<subseteq> set (lines (report_of_pin (pin_entry p en (m, r, n))))"
  by (auto simp: pin_entry_def report_of_pin_def reportWarning_def reportInfo_def Let_def
        split: option.splits)

lemma pin_entries_lines:
  "set (lines r) \<subseteq> set (lines (report_of_pin (pin_entries p es (m, r, n))))"
proof (induction es arbitrary: m r n)
  case Nil
  then show ?case by (simp add: report_of_pin_def)
next
  case (Cons en es)
  show ?case
  proof (cases "pin_entry p en (m, r, n)")
    case (Inl x)
    with pin_entry_lines [of r p en m n] show ?thesis by simp
  next
    case (Inr y)
    obtain m1 r1 n1 where y: "y = (m1, r1, n1)" by (cases y)
    with Inr pin_entry_lines [of r p en m n] have "set (lines r) \<subseteq> set (lines r1)"
      by (simp add: report_of_pin_def)
    with Cons.IH [of r1 m1 n1] Inr y show ?thesis by auto
  qed
qed

lemma pin_workspace_lines:
  "set (lines r) \<subseteq> set (lines (report_of_pin (pin_workspace opt plan w (r, d))))"
proof (cases "map_of plan (cwd w)")
  case None
  then show ?thesis by (simp add: pin_workspace_def report_of_pin_def)
next
  case (Some needsPinning)
  with pin_entries_lines [of r "manifestPath_of (cwd w)" needsPinning "manifest_w w" 0]
  show ?thesis
    by (auto simp: pin_workspace_def report_of_pin_def reportInfo_def Let_def
          split: sum.splits prod.splits)
qed

lemma pin_workspaces_lines:
  "set (lines r) \<subseteq> set (lines (report_of_pin (pin_workspaces opt plan visited ws (r, d))))"
proof (induction ws arbitrary: visited r d)
  case Nil
  then show ?case by (simp add: report_of_pin_def)
next
  case (Cons w ws)
  show ?case
  proof (cases "pin_workspace opt plan w (r, d)")
    case (Inl x)
    with pin_workspace_lines [of r opt plan w d] show ?thesis
      by (cases x) (auto simp: report_of_pin_def)
  next
    case (Inr y)
    obtain w1 r1 d1 where y: "y = (w1, r1, d1)" by (cases y)
    with Inr pin_workspace_lines [of r opt plan w d] have "set (lines r) \<subseteq> set (lines r1)"
      by (simp add: report_of_pin_def)
    with Cons.IH [of r1 "visited @ [w1]" d1] Inr y show ?thesis by auto
  qed
qed

lemma pinDependencies_reports_plan:
  "Json (reportablePinsByWorkspaceCwd st) \<in> set (lines (log_c (final_state (pinDependencies opt st))))"
  using pin_workspaces_lines [of
      "(log_c st)\<lparr>lines := lines (log_c st) @ [Json (reportablePinsByWorkspaceCwd st)]\<rparr>"
      opt "pinnableByWorkspaceCwd st" "[]" "workspaces st" "disk st"]
  by (auto simp: pinDependencies_def final_state_def report_of_pin_def Let_def
        split: sum.splits prod.splits)

text \<open>The three ways \<^verbatim>\<open>execute\<close> can go before the Plan Applier runs.\<close>

lemma execute_cases:
  obtains (gather) e r where "gatherWorkspaces opt P empty_report = Inl (e, r)"
      "\<And>H d. execute H opt P d =
         Inl (e, \<lparr>log_c = r, workspaces = [], locatorsByIdent_c = [], pinnableByWorkspaceCwd = [],
                  reportablePinsByWorkspaceCwd = [], disk = d\<rparr>)"
  | (index) ws r e where "gatherWorkspaces opt P empty_report = Inr (ws, r)"
      "createLocatorsByIdentMap P = Inl e"
      "\<And>H d. execute H opt P d =
         Inl (e, \<lparr>log_c = r, workspaces = ws, locatorsByIdent_c = [], pinnableByWorkspaceCwd = [],
                  reportablePinsByWorkspaceCwd = [], disk = d\<rparr>)"
  | (plan) ws r L where "gatherWorkspaces opt P empty_report = Inr (ws, r)"
      "createLocatorsByIdentMap P = Inr L"
      "\<And>H d. execute H opt P d =
         (case findPinnableDependencies H opt P
                 \<lparr>log_c = r, workspaces = ws, locatorsByIdent_c = L, pinnableByWorkspaceCwd = [],
                  reportablePinsByWorkspaceCwd = [], disk = d\<rparr> of
            Inl x \<Rightarrow> Inl x
          | Inr st2 \<Rightarrow> pinDependencies opt st2)"
proof (cases "gatherWorkspaces opt P empty_report")
  case (Inl x)
  obtain e r where "x = (e, r)" by (cases x)
  with Inl show ?thesis
    by (intro gather [of e r]) (simp_all add: execute_def empty_report_def Let_def)
next
  case (Inr y)
  obtain ws r where y: "y = (ws, r)" by (cases y)
  show ?thesis
  proof (cases "createLocatorsByIdentMap P")
    case (Inl e)
    with Inr y show ?thesis
      by (intro index [of ws r e]) (simp_all add: execute_def empty_report_def Let_def)
  next
    case (Inr L)
    with \<open>gatherWorkspaces opt P empty_report = Inr y\<close> y show ?thesis
      by (intro plan [of ws r L]) (simp_all add: execute_def empty_report_def Let_def)
  qed
qed

lemma execute_not_dry:
  "execute H (opt\<lparr>dryRun := False\<rparr>) P d =
     (case gatherWorkspaces opt P empty_report of
        Inl (e, r) \<Rightarrow>
          Inl (e, \<lparr>log_c = r, workspaces = [], locatorsByIdent_c = [], pinnableByWorkspaceCwd = [],
                   reportablePinsByWorkspaceCwd = [], disk = d\<rparr>)
      | Inr (ws, r) \<Rightarrow>
          (case createLocatorsByIdentMap P of
             Inl e \<Rightarrow>
               Inl (e, \<lparr>log_c = r, workspaces = ws, locatorsByIdent_c = [], pinnableByWorkspaceCwd = [],
                        reportablePinsByWorkspaceCwd = [], disk = d\<rparr>)
           | Inr L \<Rightarrow>
               (case findPinnableDependencies H opt P
                       \<lparr>log_c = r, workspaces = ws, locatorsByIdent_c = L, pinnableByWorkspaceCwd = [],
                        reportablePinsByWorkspaceCwd = [], disk = d\<rparr> of
                  Inl x \<Rightarrow> Inl x
                | Inr st2 \<Rightarrow> pinDependencies (opt\<lparr>dryRun := False\<rparr>) st2)))"
  by (simp add: execute_def empty_report_def Let_def gatherWorkspaces_dry_irrelevant
        findPinnableDependencies_dry_irrelevant
      split: sum.splits prod.splits)

text \<open>
  C10. Under \<^verbatim>\<open>--dry\<close> the disk at the end of the run, completed or not, is the disk at
  its start. The plan is the one the same run computes without the flag, the manifests
  in memory are rewritten alike, the run fails or completes alike, and a completed run
  has reported the plan.
\<close>

theorem C10_dry_run_persists_nothing:
  assumes "dryRun opt"
  shows "disk (final_state (execute H opt P d)) = d
       \<and> pinnableByWorkspaceCwd (final_state (execute H opt P d))
           = pinnableByWorkspaceCwd (final_state (execute H (opt\<lparr>dryRun := False\<rparr>) P d))
       \<and> reportablePinsByWorkspaceCwd (final_state (execute H opt P d))
           = reportablePinsByWorkspaceCwd (final_state (execute H (opt\<lparr>dryRun := False\<rparr>) P d))
       \<and> workspaces (final_state (execute H opt P d))
           = workspaces (final_state (execute H (opt\<lparr>dryRun := False\<rparr>) P d))
       \<and> isl (execute H opt P d) = isl (execute H (opt\<lparr>dryRun := False\<rparr>) P d)
       \<and> (\<forall>st. execute H opt P d = Inr st \<longrightarrow>
             Json (reportablePinsByWorkspaceCwd st) \<in> set (lines (log_c st)))"
proof (cases opt P rule: execute_cases)
  case (gather e r)
  then show ?thesis by (simp add: execute_not_dry final_state_def)
next
  case (index ws r e)
  then show ?thesis by (simp add: execute_not_dry final_state_def)
next
  case (plan ws r L)
  define st1 where "st1 = \<lparr>log_c = r, workspaces = ws, locatorsByIdent_c = L, pinnableByWorkspaceCwd = [],
                  reportablePinsByWorkspaceCwd = [], disk = d\<rparr>"
  have e1: "execute H opt P d =
      (case findPinnableDependencies H opt P st1 of Inl x \<Rightarrow> Inl x | Inr st2 \<Rightarrow> pinDependencies opt st2)"
    using plan(3) by (simp add: st1_def)
  have e2: "execute H (opt\<lparr>dryRun := False\<rparr>) P d =
      (case findPinnableDependencies H opt P st1 of Inl x \<Rightarrow> Inl x
       | Inr st2 \<Rightarrow> pinDependencies (opt\<lparr>dryRun := False\<rparr>) st2)"
    using plan(1,2) by (simp add: execute_not_dry st1_def)
  have d1: "disk (final_state (findPinnableDependencies H opt P st1)) = d"
    by (simp add: findPinnableDependencies_disk st1_def)
  show ?thesis
  proof (cases "findPinnableDependencies H opt P st1")
    case (Inl x)
    with d1 show ?thesis by (simp add: e1 e2)
  next
    case (Inr st2)
    with d1 have d2: "disk st2 = d" by (simp add: final_state_def)
    have "Json (reportablePinsByWorkspaceCwd st) \<in> set (lines (log_c st))"
      if "pinDependencies opt st2 = Inr st" for st
    proof -
      from that pinDependencies_plan [of opt st2]
      have "reportablePinsByWorkspaceCwd st = reportablePinsByWorkspaceCwd st2"
        by (simp add: final_state_def)
      with that pinDependencies_reports_plan [of st2 opt] show ?thesis
        by (simp add: final_state_def)
    qed
    then show ?thesis
      using Inr d2 pinDependencies_dry [OF assms, of st2]
        pinDependencies_plan [of opt st2] pinDependencies_plan [of "opt\<lparr>dryRun := False\<rparr>" st2]
        pinDependencies_workspaces [of opt st2 "opt\<lparr>dryRun := False\<rparr>"]
      by (simp add: e1 e2)
  qed
qed

text \<open>
  The witness: one pinnable entry; the dry run plans it and leaves the file as it was,
  where the run without the flag rewrites the file.
\<close>

theorem C10_witness:
  "dryRun (no_flags\<lparr>dryRun := True\<rparr>)
   \<and> disk (final_state (execute semver_fragment (no_flags\<lparr>dryRun := True\<rparr>) single_project original_disk))
       = original_disk
   \<and> pinnableByWorkspaceCwd
        (final_state (execute semver_fragment (no_flags\<lparr>dryRun := True\<rparr>) single_project original_disk))
       = [(''/A'', [(''lib'', pkg ''Z'' ''3.1.0'')])]
   \<and> disk (final_state (execute semver_fragment no_flags single_project original_disk))
       = [(''/A/package.json'', manifest_w (one_workspace [(''lib'', dep ''lib'' ''3.1.0'')] []))]"
proof -
  have 1: "dryRun (no_flags\<lparr>dryRun := True\<rparr>)" by simp
  have 2: "pinnableByWorkspaceCwd
        (final_state (execute semver_fragment (no_flags\<lparr>dryRun := True\<rparr>) single_project original_disk))
       = [(''/A'', [(''lib'', pkg ''Z'' ''3.1.0'')])]" by code_simp
  have 3: "disk (final_state (execute semver_fragment no_flags single_project original_disk))
       = [(''/A/package.json'', manifest_w (one_workspace [(''lib'', dep ''lib'' ''3.1.0'')] []))]"
    by code_simp
  from C10_dry_run_persists_nothing [OF 1, of semver_fragment single_project original_disk]
  have "disk (final_state (execute semver_fragment (no_flags\<lparr>dryRun := True\<rparr>) single_project original_disk))
       = original_disk" by blast
  with 1 2 3 show ?thesis by blast
qed

subsection \<open>C4: the second run\<close>

lemma pinTo_of_report_irrelevant:
  "map_sum fst fst (pinTo_of H P L ex ref cw rg ih r) = map_sum fst fst (pinTo_of H P L ex ref' cw' rg ih r')"
  by (auto simp: pinTo_of_def Let_def split: option.splits sum.splits list.splits)

lemma pinTo_of_cases:
  "(\<exists>e r1 r2. pinTo_of H P L ex ref cw rg ih r = Inl (e, r1)
       \<and> pinTo_of H P L ex [] [] rg ih empty_report = Inl (e, r2))
   \<or> (\<exists>p r1 r2. pinTo_of H P L ex ref cw rg ih r = Inr (p, r1)
       \<and> pinTo_of H P L ex [] [] rg ih empty_report = Inr (p, r2))"
  using pinTo_of_report_irrelevant [of H P L ex ref cw rg ih r "[]" "[]" empty_report]
  by (cases "pinTo_of H P L ex ref cw rg ih r"; cases "pinTo_of H P L ex [] [] rg ih empty_report")
     auto

lemma processDependency_decision:
  "map_sum fst pinnableInWorkspace (processDependency H opt P L cw (ih, d) s)
   = map_sum id (plan_after (pinnableInWorkspace s) ih) (pin_decision H opt P L (ih, d))"
proof (cases "range_d d")
  case None
  then show ?thesis by (simp add: processDependency_def pin_decision_def Let_def)
next
  case (Some rg)
  show ?thesis
  proof (cases "reaches_selection H opt d rg")
    case False
    then show ?thesis
      using Some
      by (auto simp: processDependency_def pin_decision_def reaches_selection_def Let_def plan_after_def
            split: option.splits)
  next
    case True
    from pinTo_of_cases [of H P L "explicitlyIncluded_of opt d" "pRef (scope d) (name d) (range_d d)"
        cw rg ih "report_at_selection H opt cw d rg (log_r s)"]
    consider (err) e r1 r2 where
        "pinTo_of H P L (explicitlyIncluded_of opt d) (pRef (scope d) (name d) (range_d d)) cw rg ih
           (report_at_selection H opt cw d rg (log_r s)) = Inl (e, r1)"
        "pinTo_of H P L (explicitlyIncluded_of opt d) [] [] rg ih empty_report = Inl (e, r2)"
      | (ok) p r1 r2 where
        "pinTo_of H P L (explicitlyIncluded_of opt d) (pRef (scope d) (name d) (range_d d)) cw rg ih
           (report_at_selection H opt cw d rg (log_r s)) = Inr (p, r1)"
        "pinTo_of H P L (explicitlyIncluded_of opt d) [] [] rg ih empty_report = Inr (p, r2)"
      by blast
    then show ?thesis
    proof cases
      case err
      then show ?thesis
        using Some True by (simp add: processDependency_selection pin_decision_def)
    next
      case ok
      then show ?thesis
        using Some True
        by (cases p) (simp_all add: processDependency_selection pin_decision_def plan_after_def)
    qed
  qed
qed

lemma processDependency_Inr_decision:
  assumes "processDependency H opt P L cw (ih, d) s = Inr s'"
  obtains dec where "pin_decision H opt P L (ih, d) = Inr dec"
    and "pinnableInWorkspace s' = plan_after (pinnableInWorkspace s) ih dec"
  using processDependency_decision [of H opt P L cw ih d s] assms
  by (cases "pin_decision H opt P L (ih, d)") auto

lemma decision_Inr_processDependency:
  assumes "pin_decision H opt P L (ih, d) = Inr dec"
  obtains s' where "processDependency H opt P L cw (ih, d) s = Inr s'"
    and "pinnableInWorkspace s' = plan_after (pinnableInWorkspace s) ih dec"
  using processDependency_decision [of H opt P L cw ih d s] assms
  by (cases "processDependency H opt P L cw (ih, d) s") auto

lemma sourcePackage_of_stored:
  assumes "sourcePackage_of P h = Inr (Some q)"
  shows "\<exists>h'. map_of (storedPackages P) h' = Some q"
  using assms by (auto simp: sourcePackage_of_def split: option.splits)

lemma candidates_of_Inr_any:
  assumes "candidates_of H P ex rg lhs = Inr cs"
  shows "\<exists>cs'. candidates_of H P ex' rg' lhs = Inr cs'"
  using assms by (auto simp: candidates_of_def split: sum.splits)

lemma exact_versionsD:
  assumes "exact_versions H P" and "map_of (storedPackages P) h = Some p"
  obtains v where "version p = Some v" and "\<not> has_line_terminator v" and "semverSatisfies H v v"
    and "\<And>h' p' v'. map_of (storedPackages P) h' = Some p' \<Longrightarrow> version p' = Some v' \<Longrightarrow>
           semverSatisfies H v' v \<Longrightarrow> v' = v"
  using assms unfolding exact_versions_def by blast

lemma candidates_of_pinned:
  assumes ex: "exact_versions H P"
    and cand: "candidates_of H P ex1 rg lhs = Inr cs1" and p: "p \<in> set cs1"
    and v: "version p = Some v"
  obtains cs2 where "candidates_of H P False v lhs = Inr cs2" and "cs2 \<noteq> []"
    and "\<forall>q\<in>set cs2. version q = Some v"
proof -
  from candidates_of_Inr_any [OF cand] obtain cs2 where cs2: "candidates_of H P False v lhs = Inr cs2"
    by blast
  from p set_candidates_of [OF cand, of p] obtain h where h: "h \<in> set lhs"
    "sourcePackage_of P h = Inr (Some p)" by blast
  from sourcePackage_of_stored [OF h(2)] obtain h' where h': "map_of (storedPackages P) h' = Some p"
    by blast
  from exact_versionsD [OF ex h'] v
  have ev: "\<not> has_line_terminator v" "semverSatisfies H v v"
    "\<And>h' p' v'. map_of (storedPackages P) h' = Some p' \<Longrightarrow> version p' = Some v' \<Longrightarrow>
           semverSatisfies H v' v \<Longrightarrow> v' = v"
    by (metis option.inject)+
  have "p \<in> set cs2"
    using set_candidates_of [OF cs2, of p] h v ev(1,2) by auto
  then have ne: "cs2 \<noteq> []" by auto
  have "\<forall>q\<in>set cs2. version q = Some v"
  proof
    fix q assume "q \<in> set cs2"
    with set_candidates_of [OF cs2, of q] obtain hq vq where q: "sourcePackage_of P hq = Inr (Some q)"
      "version q = Some vq" "semverSatisfies H vq v" by auto
    from sourcePackage_of_stored [OF q(1)] obtain h'' where "map_of (storedPackages P) h'' = Some q"
      by blast
    from ev(3) [OF this q(2,3)] q(2) show "version q = Some v" by simp
  qed
  with cs2 ne show ?thesis by (rule that)
qed

lemma pin_decision_Some:
  assumes "pin_decision H opt P L (ih, d) = Inr (Some p)"
  obtains rg r where "range_d d = Some rg" and "reaches_selection H opt d rg"
    and "pinTo_of H P L (explicitlyIncluded_of opt d) [] [] rg ih empty_report = Inr (Some p, r)"
    and "version p \<noteq> Some rg"
  using assms
  by (auto simp: pin_decision_def split: option.splits if_splits sum.splits prod.splits)

lemma pinTo_of_Some_cases:
  assumes "pinTo_of H P L ex ref cw rg ih r = Inr (Some p, r')"
  obtains (single) h where "map_of L ih = Some [h]" "map_of (storedPackages P) h = Some p"
  | (multi) lhs cs where "map_of L ih = Some lhs" "1 < length lhs"
      "candidates_of H P ex rg lhs = Inr cs" "cs \<noteq> []"
      "map_of (storedPackages P) (locatorHash (hd cs)) = Some p"
proof (cases "map_of L ih")
  case None
  with assms show ?thesis by (simp add: pinTo_of_def)
next
  case (Some lhs)
  consider "1 < length lhs" | "length lhs = 1" | "length lhs = 0" by linarith
  then show ?thesis
  proof cases
    case 1
    with assms Some obtain cs where cs: "candidates_of H P ex rg lhs = Inr cs"
      by (auto simp: pinTo_of_def Let_def split: sum.splits)
    with assms Some 1 have "cs \<noteq> []" "map_of (storedPackages P) (locatorHash (hd cs)) = Some p"
      by (auto simp: pinTo_of_def Let_def split: list.splits)
    with Some 1 cs show ?thesis by (rule multi)
  next
    case 2
    then obtain h where "lhs = [h]" by (cases lhs) auto
    with assms Some show ?thesis by (intro single [of h]) (simp_all add: pinTo_of_def)
  next
    case 3
    with assms Some show ?thesis by (simp add: pinTo_of_def)
  qed
qed

lemma repin_decision:
  assumes wf: "wf_packages P" and ex: "exact_versions H P"
    and dec: "pin_decision H opt P L (ih, d) = Inr (Some p)"
    and v: "version p = Some v"
    and nex: "\<not> explicitlyIncluded_of opt (d\<lparr>range_d := Some v\<rparr>)"
  shows "pin_decision H opt P L (ih, d\<lparr>range_d := Some v\<rparr>) = Inr None"
proof (cases "reaches_selection H opt (d\<lparr>range_d := Some v\<rparr>) v")
  case False
  then show ?thesis by (simp add: pin_decision_def)
next
  case True
  from dec obtain rg r where rg: "range_d d = Some rg"
    and pt: "pinTo_of H P L (explicitlyIncluded_of opt d) [] [] rg ih empty_report = Inr (Some p, r)"
    by (rule pin_decision_Some)
  from pt show ?thesis
  proof (cases rule: pinTo_of_Some_cases)
    case (single h)
    then have "pinTo_of H P L False [] [] v ih empty_report = Inr (Some p, empty_report)"
      by (simp add: pinTo_of_single)
    with True nex v show ?thesis by (simp add: pin_decision_def)
  next
    case (multi lhs cs)
    have "hd cs \<in> set cs" using multi(4) by simp
    with set_candidates_of [OF multi(3), of "hd cs"] obtain h where
      "sourcePackage_of P h = Inr (Some (hd cs))" by blast
    with wf have "map_of (storedPackages P) (locatorHash (hd cs)) = Some (hd cs)"
      by (rule sourcePackage_of_lookup)
    with multi(5) have "p = hd cs" by simp
    with \<open>hd cs \<in> set cs\<close> have pin: "p \<in> set cs" by simp
    from candidates_of_pinned [OF ex multi(3) pin v] obtain cs2 where
      cs2: "candidates_of H P False v lhs = Inr cs2" "cs2 \<noteq> []" "\<forall>q\<in>set cs2. version q = Some v"
      by blast
    from pinTo_of_multi_wf [OF multi(1,2) cs2(1,2) wf, of "[]" "[]" empty_report]
    obtain r2 where "pinTo_of H P L False [] [] v ih empty_report = Inr (Some (hd cs2), r2)"
      by blast
    moreover have "version (hd cs2) = Some v" using cs2(2,3) by simp
    ultimately show ?thesis using True nex by (simp add: pin_decision_def)
  qed
qed

lemma map_fst_map_set:
  "map fst (map_set m k v) = (if k \<in> set (map fst m) then map fst m else map fst m @ [k])"
  by (induction m) (auto split: if_splits)

lemma distinct_map_set: "distinct (map fst m) \<Longrightarrow> distinct (map fst (map_set m k v))"
  by (simp add: map_fst_map_set)

lemma map_fst_rewrite_map [simp]: "map fst (rewrite_map pl es) = map fst es"
  by (induction es) (auto simp: rewrite_map_def)

lemma rewrite_map_Nil [simp]: "rewrite_map [] es = es"
  by (induction es) (auto simp: rewrite_map_def)

lemma rewrite_manifest_Nil [simp]: "rewrite_manifest [] m = m"
  by (simp add: rewrite_manifest_def)

lemma keys_ok_rewrite [simp]: "keys_ok (rewrite_manifest pl m) = keys_ok m"
  by (simp add: keys_ok_def rewrite_manifest_def)

lemma rewrite_map_notin:
  "k \<notin> set (map fst es) \<Longrightarrow> rewrite_map [(k, p)] es = es"
  by (induction es) (auto simp: rewrite_map_def)

lemma map_set_rewrite:
  "distinct (map fst es) \<Longrightarrow> map_of es k = Some old \<Longrightarrow>
     map_set es k (old\<lparr>range_d := version p\<rparr>) = rewrite_map [(k, p)] es"
proof (induction es)
  case Nil
  then show ?case by simp
next
  case (Cons a es)
  obtain k' d where a: "a = (k', d)" by (cases a)
  show ?case
  proof (cases "k' = k")
    case True
    with Cons.prems a have "d = old" "k \<notin> set (map fst es)" by auto
    with True a rewrite_map_notin [of k es p] show ?thesis
      by (simp add: rewrite_map_def)
  next
    case False
    with Cons a show ?thesis by (simp add: rewrite_map_def)
  qed
qed

lemma rewrite_map_Cons:
  "k \<notin> set (map fst pl) \<Longrightarrow>
     rewrite_map ((k, p) # pl) es = rewrite_map pl (rewrite_map [(k, p)] es)"
proof (induction es)
  case Nil
  then show ?case by (simp add: rewrite_map_def)
next
  case (Cons a es)
  obtain k' d where a: "a = (k', d)" by (cases a)
  from Cons.prems have "map_of pl k = None"
    by (simp add: map_of_eq_None_iff)
  with Cons a show ?case
    by (auto simp: rewrite_map_def split: option.splits)
qed

lemma rewrite_manifest_Cons:
  "k \<notin> set (map fst pl) \<Longrightarrow>
     rewrite_manifest ((k, p) # pl) m = rewrite_manifest pl (rewrite_manifest [(k, p)] m)"
  by (simp add: rewrite_manifest_def rewrite_map_Cons [of k pl p])

lemma rewrite_map_same:
  "distinct (map fst es) \<Longrightarrow> map_of es k = Some old \<Longrightarrow> range_d old = version p \<Longrightarrow>
     rewrite_map [(k, p)] es = es"
proof (induction es)
  case Nil
  then show ?case by simp
next
  case (Cons a es)
  obtain k' d where a: "a = (k', d)" by (cases a)
  show ?case
  proof (cases "k' = k")
    case True
    with Cons.prems a have "d = old" "k \<notin> set (map fst es)" by auto
    with True a Cons.prems(3) rewrite_map_notin [of k es p] show ?thesis
      by (simp add: rewrite_map_def)
  next
    case False
    with Cons a show ?thesis by (simp add: rewrite_map_def)
  qed
qed

lemma pin_entry_rewrite:
  assumes "keys_ok m" and "k \<in> set (map fst (dependencies m)) \<union> set (map fst (devDependencies m))"
  shows "\<exists>r' n'. pin_entry path (k, p) (m, r, n) = Inr (rewrite_manifest [(k, p)] m, r', n')"
proof (cases "map_of (dependencies m) k")
  case None
  then have notin: "k \<notin> set (map fst (dependencies m))" by (simp add: map_of_eq_None_iff)
  with assms(2) have "k \<in> set (map fst (devDependencies m))" by simp
  then obtain old where old: "map_of (devDependencies m) k = Some old"
    by (metis map_of_eq_None_iff not_None_eq set_map)
  have dd: "distinct (map fst (devDependencies m))" using assms(1) by (simp add: keys_ok_def)
  show ?thesis
  proof (cases "range_d old = version p")
    case True
    with None old rewrite_map_same [OF dd old True] rewrite_map_notin [OF notin, of p]
    show ?thesis
      by (simp add: pin_entry_def Let_def rewrite_manifest_def)
  next
    case False
    then show ?thesis
      using None old notin map_set_rewrite [OF dd old, of p] rewrite_map_notin [OF notin, of p]
      by (simp add: pin_entry_def Let_def rewrite_manifest_def)
  qed
next
  case (Some old)
  have dd: "distinct (map fst (dependencies m))" using assms(1) by (simp add: keys_ok_def)
  have "k \<in> set (map fst (dependencies m))"
    using Some by (metis map_of_eq_None_iff option.distinct(1) set_map)
  then have notin: "k \<notin> set (map fst (devDependencies m))"
    using assms(1) by (auto simp: keys_ok_def)
  then have dev: "map_of (devDependencies m) k = None" by (simp add: map_of_eq_None_iff)
  show ?thesis
  proof (cases "range_d old = version p")
    case True
    with Some dev rewrite_map_same [OF dd Some True] rewrite_map_notin [OF notin, of p]
    show ?thesis
      by (simp add: pin_entry_def Let_def rewrite_manifest_def)
  next
    case False
    then show ?thesis
      using Some dev map_set_rewrite [OF dd Some, of p] rewrite_map_notin [OF notin, of p]
      by (simp add: pin_entry_def Let_def rewrite_manifest_def)
  qed
qed

lemma pin_entries_rewrite:
  assumes "keys_ok m" and "distinct (map fst pl)"
    and "set (map fst pl) \<subseteq> set (map fst (dependencies m)) \<union> set (map fst (devDependencies m))"
  shows "\<exists>r' n'. pin_entries path pl (m, r, n) = Inr (rewrite_manifest pl m, r', n')"
  using assms
proof (induction pl arbitrary: m r n)
  case Nil
  then show ?case by simp
next
  case (Cons a pl)
  obtain k p where a: "a = (k, p)" by (cases a)
  from Cons.prems a have k: "k \<in> set (map fst (dependencies m)) \<union> set (map fst (devDependencies m))"
    and kn: "k \<notin> set (map fst pl)" and dp: "distinct (map fst pl)"
    and sub: "set (map fst pl) \<subseteq> set (map fst (dependencies m)) \<union> set (map fst (devDependencies m))"
    by auto
  from pin_entry_rewrite [OF Cons.prems(1) k, of path p r n] obtain r1 n1 where
    1: "pin_entry path (k, p) (m, r, n) = Inr (rewrite_manifest [(k, p)] m, r1, n1)" by blast
  have ok1: "keys_ok (rewrite_manifest [(k, p)] m)" using Cons.prems(1) by simp
  have sub1: "set (map fst pl) \<subseteq> set (map fst (dependencies (rewrite_manifest [(k, p)] m)))
                \<union> set (map fst (devDependencies (rewrite_manifest [(k, p)] m)))"
    using sub by (simp add: rewrite_manifest_def)
  from Cons.IH [OF ok1 dp sub1, of r1 n1] obtain r' n' where
    "pin_entries path pl (rewrite_manifest [(k, p)] m, r1, n1)
       = Inr (rewrite_manifest pl (rewrite_manifest [(k, p)] m), r', n')" by blast
  with 1 a show ?case by (simp add: rewrite_manifest_Cons [OF kn])
qed

lemma processDependencies_append:
  "processDependencies H opt P L cw (es1 @ es2) s =
     (case processDependencies H opt P L cw es1 s of
        Inl x \<Rightarrow> Inl x
      | Inr s1 \<Rightarrow> processDependencies H opt P L cw es2 s1)"
  by (induction es1 arbitrary: s) (auto split: sum.splits)

lemma findPinnableInWorkspace_processed:
  "findPinnableInWorkspace H opt P L w r =
     processDependencies H opt P L (cwd w) (processed_entries opt (manifest_w w))
       \<lparr>log_r = r, pinnableInWorkspace = [], reportablePinsInWorkspace = []\<rparr>"
  by (auto simp: findPinnableInWorkspace_def processed_entries_def processDependencies_append Let_def
        split: sum.splits)

lemma map_of_plan_after:
  "map_of (plan_after m ih dec) k = (if k = ih \<and> dec \<noteq> None then dec else map_of m k)"
  by (cases dec) (simp_all add: plan_after_def map_of_map_set)

lemma keys_plan_after:
  "set (map fst (plan_after m ih dec)) \<subseteq> insert ih (set (map fst m))"
  by (cases dec) (auto simp: plan_after_def map_fst_map_set)

lemma distinct_plan_after:
  "distinct (map fst m) \<Longrightarrow> distinct (map fst (plan_after m ih dec))"
  by (cases dec) (simp_all add: plan_after_def distinct_map_set)

lemma processDependencies_plan:
  assumes "processDependencies H opt P L cw es s = Inr s'"
    and "distinct (map fst es)"
    and "set (map fst es) \<inter> set (map fst (pinnableInWorkspace s)) = {}"
    and "distinct (map fst (pinnableInWorkspace s))"
  shows "(\<forall>e\<in>set es. pin_decision H opt P L e = Inr (map_of (pinnableInWorkspace s') (fst e)))
       \<and> (\<forall>k. k \<notin> set (map fst es) \<longrightarrow>
              map_of (pinnableInWorkspace s') k = map_of (pinnableInWorkspace s) k)
       \<and> distinct (map fst (pinnableInWorkspace s'))
       \<and> set (map fst (pinnableInWorkspace s')) \<subseteq> set (map fst (pinnableInWorkspace s)) \<union> set (map fst es)"
  using assms
proof (induction es arbitrary: s)
  case Nil
  then show ?case by simp
next
  case (Cons a es)
  obtain ih d where a: "a = (ih, d)" by (cases a)
  from Cons.prems(1) obtain s1 where s1: "processDependency H opt P L cw (ih, d) s = Inr s1"
    and rest: "processDependencies H opt P L cw es s1 = Inr s'"
    by (auto simp: a split: sum.splits)
  from s1 obtain dec where dec: "pin_decision H opt P L (ih, d) = Inr dec"
    and p1: "pinnableInWorkspace s1 = plan_after (pinnableInWorkspace s) ih dec"
    by (rule processDependency_Inr_decision)
  from Cons.prems(2) a have ihn: "ih \<notin> set (map fst es)" and des: "distinct (map fst es)" by auto
  from Cons.prems(3) a have ihs: "ih \<notin> set (map fst (pinnableInWorkspace s))"
    and dis: "set (map fst es) \<inter> set (map fst (pinnableInWorkspace s)) = {}" by auto
  have dis1: "set (map fst es) \<inter> set (map fst (pinnableInWorkspace s1)) = {}"
    using keys_plan_after [of "pinnableInWorkspace s" ih dec] dis ihn by (auto simp: p1)
  have d1: "distinct (map fst (pinnableInWorkspace s1))"
    using Cons.prems(4) by (simp add: p1 distinct_plan_after)
  note IH = Cons.IH [OF rest des dis1 d1]
  have head: "map_of (pinnableInWorkspace s') ih = dec"
  proof -
    from IH ihn have "map_of (pinnableInWorkspace s') ih = map_of (pinnableInWorkspace s1) ih"
      by blast
    also have "\<dots> = (if dec \<noteq> None then dec else map_of (pinnableInWorkspace s) ih)"
      by (simp add: p1 map_of_plan_after)
    also have "map_of (pinnableInWorkspace s) ih = None"
      using ihs by (simp add: map_of_eq_None_iff)
    finally show ?thesis by (cases dec) simp_all
  qed
  have A: "\<forall>e\<in>set (a # es). pin_decision H opt P L e = Inr (map_of (pinnableInWorkspace s') (fst e))"
    using IH head dec by (simp add: a)
  have B: "\<forall>k. k \<notin> set (map fst (a # es)) \<longrightarrow>
              map_of (pinnableInWorkspace s') k = map_of (pinnableInWorkspace s) k"
  proof (intro allI impI)
    fix k assume k: "k \<notin> set (map fst (a # es))"
    then have "k \<noteq> ih" "k \<notin> set (map fst es)" by (auto simp: a)
    with IH have "map_of (pinnableInWorkspace s') k = map_of (pinnableInWorkspace s1) k" by blast
    with \<open>k \<noteq> ih\<close> show "map_of (pinnableInWorkspace s') k = map_of (pinnableInWorkspace s) k"
      by (simp add: p1 map_of_plan_after)
  qed
  have C: "distinct (map fst (pinnableInWorkspace s'))" using IH by blast
  have D: "set (map fst (pinnableInWorkspace s'))
             \<subseteq> set (map fst (pinnableInWorkspace s)) \<union> set (map fst (a # es))"
  proof -
    from IH have X: "set (map fst (pinnableInWorkspace s'))
        \<subseteq> set (map fst (pinnableInWorkspace s1)) \<union> set (map fst es)" by blast
    have Y: "set (map fst (pinnableInWorkspace s1)) \<subseteq> insert ih (set (map fst (pinnableInWorkspace s)))"
      unfolding p1 by (rule keys_plan_after)
    have Z: "set (map fst (a # es)) = insert ih (set (map fst es))" unfolding a by simp
    from X Y show ?thesis unfolding Z by blast
  qed
  show ?case by (intro conjI) (rule A, rule B, rule C, rule D)
qed

lemma processDependencies_none:
  assumes "\<forall>e\<in>set es. pin_decision H opt P L e = Inr None"
  shows "\<exists>s'. processDependencies H opt P L cw es s = Inr s'
            \<and> pinnableInWorkspace s' = pinnableInWorkspace s"
  using assms
proof (induction es arbitrary: s)
  case Nil
  then show ?case by simp
next
  case (Cons a es)
  obtain ih d where a: "a = (ih, d)" by (cases a)
  from Cons.prems a have "pin_decision H opt P L (ih, d) = Inr None" by simp
  then obtain s1 where s1: "processDependency H opt P L cw (ih, d) s = Inr s1"
    "pinnableInWorkspace s1 = plan_after (pinnableInWorkspace s) ih None"
    by (rule decision_Inr_processDependency)
  from Cons.IH [of s1] Cons.prems obtain s' where
    "processDependencies H opt P L cw es s1 = Inr s'" "pinnableInWorkspace s' = pinnableInWorkspace s1"
    by auto
  with s1 show ?case by (simp add: a plan_after_def)
qed

lemma processed_keys:
  assumes "keys_ok m"
  shows "distinct (map fst (processed_entries opt m))"
    and "set (map fst (processed_entries opt m))
           \<subseteq> set (map fst (dependencies m)) \<union> set (map fst (devDependencies m))"
  using assms by (auto simp: keys_ok_def processed_entries_def)

lemma rewrite_map_append: "rewrite_map pl (xs @ ys) = rewrite_map pl xs @ rewrite_map pl ys"
  by (simp add: rewrite_map_def)

lemma rewrite_map_empty [simp]: "rewrite_map pl [] = []"
  by (simp add: rewrite_map_def)

lemma processed_rewrite:
  "processed_entries opt (rewrite_manifest pl m) = rewrite_map pl (processed_entries opt m)"
  by (simp add: processed_entries_def rewrite_manifest_def rewrite_map_append)

lemma planned_stored:
  assumes "pin_decision H opt P L (ih, d) = Inr (Some p)"
  shows "\<exists>h. map_of (storedPackages P) h = Some p"
proof -
  from assms obtain rg r where
    "pinTo_of H P L (explicitlyIncluded_of opt d) [] [] rg ih empty_report = Inr (Some p, r)"
    by (rule pin_decision_Some)
  then show ?thesis by (cases rule: pinTo_of_Some_cases) blast+
qed

lemma workspace_second_run:
  assumes wf: "wf_packages P" and ex: "exact_versions H P" and ok: "keys_ok (manifest_w w)"
    and run1: "findPinnableInWorkspace H opt P L w r = Inr s"
    and nex: "\<forall>e\<in>set (processed_entries opt (rewrite_manifest (pinnableInWorkspace s) (manifest_w w))).
                \<not> explicitlyIncluded_of opt (snd e)"
  shows "\<exists>s2. findPinnableInWorkspace H opt P L
                 (w\<lparr>manifest_w := rewrite_manifest (pinnableInWorkspace s) (manifest_w w)\<rparr>) r2 = Inr s2
             \<and> pinnableInWorkspace s2 = []"
proof -
  define pl where "pl = pinnableInWorkspace s"
  define es where "es = processed_entries opt (manifest_w w)"
  from run1 have run: "processDependencies H opt P L (cwd w) es
       \<lparr>log_r = r, pinnableInWorkspace = [], reportablePinsInWorkspace = []\<rparr> = Inr s"
    by (simp add: findPinnableInWorkspace_processed es_def)
  have des: "distinct (map fst es)" unfolding es_def using ok by (rule processed_keys)
  from processDependencies_plan [OF run des]
  have decs: "\<forall>e\<in>set es. pin_decision H opt P L e = Inr (map_of pl (fst e))"
    by (simp add: pl_def)
  have "\<forall>e'\<in>set (rewrite_map pl es). pin_decision H opt P L e' = Inr None"
  proof
    fix e' assume e': "e' \<in> set (rewrite_map pl es)"
    then obtain k d where kd: "(k, d) \<in> set es"
      and e'eq: "e' = (k, case map_of pl k of Some p \<Rightarrow> d\<lparr>range_d := version p\<rparr> | None \<Rightarrow> d)"
      by (auto simp: rewrite_map_def)
    from decs kd have dec: "pin_decision H opt P L (k, d) = Inr (map_of pl k)" by force
    show "pin_decision H opt P L e' = Inr None"
    proof (cases "map_of pl k")
      case None
      with dec e'eq show ?thesis by simp
    next
      case (Some p)
      with dec have decp: "pin_decision H opt P L (k, d) = Inr (Some p)" by simp
      from planned_stored [OF decp] obtain h where "map_of (storedPackages P) h = Some p" by blast
      with ex obtain v where v: "version p = Some v" by (rule exact_versionsD)
      from e' nex have "\<not> explicitlyIncluded_of opt (snd e')"
        by (simp add: processed_rewrite pl_def es_def)
      with e'eq Some v have "\<not> explicitlyIncluded_of opt (d\<lparr>range_d := Some v\<rparr>)" by simp
      from repin_decision [OF wf ex decp v this] e'eq Some v show ?thesis by simp
    qed
  qed
  from processDependencies_none [OF this, of "cwd w"
      "\<lparr>log_r = r2, pinnableInWorkspace = [], reportablePinsInWorkspace = []\<rparr>"]
  show ?thesis
    by (simp add: findPinnableInWorkspace_processed processed_rewrite pl_def es_def)
qed

lemma workspace_plan_keys:
  assumes ok: "keys_ok (manifest_w w)"
    and run1: "findPinnableInWorkspace H opt P L w r = Inr s"
  shows "distinct (map fst (pinnableInWorkspace s))"
    and "set (map fst (pinnableInWorkspace s))
           \<subseteq> set (map fst (dependencies (manifest_w w))) \<union> set (map fst (devDependencies (manifest_w w)))"
proof -
  define es where "es = processed_entries opt (manifest_w w)"
  from run1 have run: "processDependencies H opt P L (cwd w) es
       \<lparr>log_r = r, pinnableInWorkspace = [], reportablePinsInWorkspace = []\<rparr> = Inr s"
    by (simp add: findPinnableInWorkspace_processed es_def)
  have des: "distinct (map fst es)" unfolding es_def using ok by (rule processed_keys)
  from processDependencies_plan [OF run des]
  have 1: "distinct (map fst (pinnableInWorkspace s))"
    and 2: "set (map fst (pinnableInWorkspace s)) \<subseteq> set (map fst es)" by simp_all
  from 1 show "distinct (map fst (pinnableInWorkspace s))" .
  from 2 processed_keys(2) [OF ok, of opt]
  show "set (map fst (pinnableInWorkspace s))
           \<subseteq> set (map fst (dependencies (manifest_w w))) \<union> set (map fst (devDependencies (manifest_w w)))"
    unfolding es_def by (rule subset_trans)
qed

lemma filter_workspaces_kept:
  assumes "filter_workspaces opt given ws r = Inr (kept, r')"
  shows "set kept \<subseteq> set ws \<and> (distinct (map cwd ws) \<longrightarrow> distinct (map cwd kept))"
  using assms
proof (induction ws arbitrary: r kept r')
  case Nil
  then show ?case by simp
next
  case (Cons w ws)
  from Cons.prems obtain incl r1 kept1 where
    1: "include_workspace opt given w r = Inr (incl, r1)"
    and 2: "filter_workspaces opt given ws r1 = Inr (kept1, r')"
    and 3: "kept = (if incl then w # kept1 else kept1)"
    by (auto split: sum.splits prod.splits)
  from Cons.IH [OF 2] have "set kept1 \<subseteq> set ws"
    and "distinct (map cwd ws) \<longrightarrow> distinct (map cwd kept1)" by simp_all
  with 3 show ?case by auto
qed

lemma gatherWorkspaces_kept:
  assumes "gatherWorkspaces opt P r = Inr (ws, r')"
  shows "set ws \<subseteq> set (p_workspaces P)
       \<and> (distinct (map cwd (p_workspaces P)) \<longrightarrow> distinct (map cwd ws))"
proof (cases "onlyWorkspaces opt")
  case None
  with assms show ?thesis by (simp add: gatherWorkspaces_def)
next
  case (Some given)
  show ?thesis
  proof (cases "length given = 0")
    case True
    with assms Some show ?thesis by (simp add: gatherWorkspaces_def)
  next
    case False
    with assms Some have "filter_workspaces opt given (p_workspaces P) r = Inr (ws, r')"
      by (simp add: gatherWorkspaces_def)
    then show ?thesis by (rule filter_workspaces_kept)
  qed
qed

text \<open>The loop of the Pin Planner over the workspaces.\<close>

lemma findPinnable_loop_frame:
  assumes "findPinnable_loop H opt P ws st = Inr st1"
  shows "locatorsByIdent_c st1 = locatorsByIdent_c st \<and> workspaces st1 = workspaces st
       \<and> disk st1 = disk st
       \<and> (\<forall>k. k \<notin> set (map cwd ws) \<longrightarrow>
              map_of (pinnableByWorkspaceCwd st1) k = map_of (pinnableByWorkspaceCwd st) k)"
  using assms
proof (induction ws arbitrary: st)
  case Nil
  then show ?case by simp
next
  case (Cons w ws)
  from Cons.prems obtain s where
    s: "findPinnableInWorkspace H opt P (locatorsByIdent_c st) w (log_c st) = Inr s"
    and rest: "findPinnable_loop H opt P ws (store_workspace_plan w s st) = Inr st1"
    by (auto split: sum.splits prod.splits)
  from Cons.IH [OF rest] show ?case
    by (auto simp: store_workspace_plan_def map_of_map_set)
qed

lemma findPinnable_loop_plans:
  assumes "findPinnable_loop H opt P ws st = Inr st1" and "distinct (map cwd ws)"
  shows "\<forall>w\<in>set ws. \<exists>r s. findPinnableInWorkspace H opt P (locatorsByIdent_c st) w r = Inr s
            \<and> map_of (pinnableByWorkspaceCwd st1) (cwd w) = Some (pinnableInWorkspace s)"
  using assms
proof (induction ws arbitrary: st)
  case Nil
  then show ?case by simp
next
  case (Cons w ws)
  from Cons.prems(1) obtain s where
    s: "findPinnableInWorkspace H opt P (locatorsByIdent_c st) w (log_c st) = Inr s"
    and rest: "findPinnable_loop H opt P ws (store_workspace_plan w s st) = Inr st1"
    by (auto split: sum.splits prod.splits)
  from Cons.prems(2) have nw: "cwd w \<notin> set (map cwd ws)" and dws: "distinct (map cwd ws)" by auto
  have L: "locatorsByIdent_c (store_workspace_plan w s st) = locatorsByIdent_c st"
    by (simp add: store_workspace_plan_def)
  from findPinnable_loop_frame [OF rest] nw
  have "map_of (pinnableByWorkspaceCwd st1) (cwd w)
        = map_of (pinnableByWorkspaceCwd (store_workspace_plan w s st)) (cwd w)" by blast
  then have head: "map_of (pinnableByWorkspaceCwd st1) (cwd w) = Some (pinnableInWorkspace s)"
    by (simp add: store_workspace_plan_def map_of_map_set)
  from Cons.IH [OF rest dws] L
  have tail: "\<forall>w\<in>set ws. \<exists>r s. findPinnableInWorkspace H opt P (locatorsByIdent_c st) w r = Inr s
            \<and> map_of (pinnableByWorkspaceCwd st1) (cwd w) = Some (pinnableInWorkspace s)"
    by simp
  show ?case
  proof
    fix w' assume "w' \<in> set (w # ws)"
    then consider "w' = w" | "w' \<in> set ws" by auto
    then show "\<exists>r s. findPinnableInWorkspace H opt P (locatorsByIdent_c st) w' r = Inr s
            \<and> map_of (pinnableByWorkspaceCwd st1) (cwd w') = Some (pinnableInWorkspace s)"
    proof cases
      case 1
      with s head show ?thesis by blast
    next
      case 2
      with tail show ?thesis by blast
    qed
  qed
qed

lemma cwd_rewrite_workspace [simp]: "cwd (rewrite_workspace PL w) = cwd w"
  by (simp add: rewrite_workspace_def)

lemma pin_workspace_rewrite:
  assumes "keys_ok (manifest_w w)" and "map_of PL (cwd w) = Some pl" and "distinct (map fst pl)"
    and "set (map fst pl) \<subseteq> set (map fst (dependencies (manifest_w w)))
                              \<union> set (map fst (devDependencies (manifest_w w)))"
  shows "\<exists>r' d'. pin_workspace opt PL w (r, d) = Inr (rewrite_workspace PL w, r', d')"
proof -
  from pin_entries_rewrite [OF assms(1,3,4), of "manifestPath_of (cwd w)" r 0]
  obtain r1 n1 where "pin_entries (manifestPath_of (cwd w)) pl (manifest_w w, r, 0)
      = Inr (rewrite_manifest pl (manifest_w w), r1, n1)" by blast
  with assms(2) show ?thesis
    by (simp add: pin_workspace_def rewrite_workspace_def Let_def)
qed

lemma pin_workspaces_rewrite:
  assumes "\<forall>w\<in>set ws. keys_ok (manifest_w w)
             \<and> (\<exists>pl. map_of PL (cwd w) = Some pl \<and> distinct (map fst pl)
                   \<and> set (map fst pl) \<subseteq> set (map fst (dependencies (manifest_w w)))
                                            \<union> set (map fst (devDependencies (manifest_w w))))"
  shows "\<exists>r' d'. pin_workspaces opt PL visited ws (r, d)
                   = Inr (visited @ map (rewrite_workspace PL) ws, r', d')"
  using assms
proof (induction ws arbitrary: visited r d)
  case Nil
  then show ?case by simp
next
  case (Cons w ws)
  from Cons.prems obtain pl where "keys_ok (manifest_w w)" "map_of PL (cwd w) = Some pl"
    "distinct (map fst pl)"
    "set (map fst pl) \<subseteq> set (map fst (dependencies (manifest_w w)))
                         \<union> set (map fst (devDependencies (manifest_w w)))" by auto
  from pin_workspace_rewrite [OF this, of opt r d] obtain r1 d1 where
    1: "pin_workspace opt PL w (r, d) = Inr (rewrite_workspace PL w, r1, d1)" by blast
  from Cons.IH [of "visited @ [rewrite_workspace PL w]" r1 d1] Cons.prems obtain r' d' where
    "pin_workspaces opt PL (visited @ [rewrite_workspace PL w]) ws (r1, d1)
       = Inr ((visited @ [rewrite_workspace PL w]) @ map (rewrite_workspace PL) ws, r', d')"
    by auto
  with 1 show ?case by simp
qed

lemma pin_workspaces_empty:
  assumes "\<forall>w\<in>set ws. map_of PL (cwd w) = Some []"
  shows "pin_workspaces opt PL visited ws (r, d) = Inr (visited @ ws, r, d)"
  using assms
proof (induction ws arbitrary: visited)
  case Nil
  then show ?case by simp
next
  case (Cons w ws)
  then have "pin_workspace opt PL w (r, d) = Inr (w, r, d)"
    by (simp add: pin_workspace_def Let_def)
  with Cons.IH [of "visited @ [w]"] Cons.prems show ?case by simp
qed

lemma findPinnable_loop_empty:
  assumes "\<forall>w\<in>set ws. \<forall>r. \<exists>s. findPinnableInWorkspace H opt P (locatorsByIdent_c st) w r = Inr s
                          \<and> pinnableInWorkspace s = []"
    and "\<forall>k pl. map_of (pinnableByWorkspaceCwd st) k = Some pl \<longrightarrow> pl = []"
    and "\<forall>k\<in>K. map_of (pinnableByWorkspaceCwd st) k \<noteq> None"
  shows "\<exists>st'. findPinnable_loop H opt P ws st = Inr st'
            \<and> (\<forall>k pl. map_of (pinnableByWorkspaceCwd st') k = Some pl \<longrightarrow> pl = [])
            \<and> (\<forall>k\<in>K \<union> set (map cwd ws). map_of (pinnableByWorkspaceCwd st') k \<noteq> None)
            \<and> workspaces st' = workspaces st \<and> disk st' = disk st
            \<and> locatorsByIdent_c st' = locatorsByIdent_c st"
  using assms
proof (induction ws arbitrary: st K)
  case Nil
  then show ?case by simp
next
  case (Cons w ws)
  from Cons.prems(1) obtain s where
    s: "findPinnableInWorkspace H opt P (locatorsByIdent_c st) w (log_c st) = Inr s"
       "pinnableInWorkspace s = []" by force
  define st1 where "st1 = store_workspace_plan w s st"
  have L: "locatorsByIdent_c st1 = locatorsByIdent_c st"
    and W: "workspaces st1 = workspaces st" and D: "disk st1 = disk st"
    by (simp_all add: st1_def store_workspace_plan_def)
  have PL1: "map_of (pinnableByWorkspaceCwd st1) = (map_of (pinnableByWorkspaceCwd st))(cwd w \<mapsto> [])"
    by (simp add: st1_def store_workspace_plan_def map_of_map_set s(2))
  have a1: "\<forall>w\<in>set ws. \<forall>r. \<exists>s. findPinnableInWorkspace H opt P (locatorsByIdent_c st1) w r = Inr s
                          \<and> pinnableInWorkspace s = []"
    using Cons.prems(1) by (simp add: L)
  have a2: "\<forall>k pl. map_of (pinnableByWorkspaceCwd st1) k = Some pl \<longrightarrow> pl = []"
    using Cons.prems(2) by (simp add: PL1)
  have a3: "\<forall>k\<in>insert (cwd w) K. map_of (pinnableByWorkspaceCwd st1) k \<noteq> None"
    using Cons.prems(3) by (simp add: PL1)
  from Cons.IH [OF a1 a2 a3] obtain st' where
    st': "findPinnable_loop H opt P ws st1 = Inr st'"
      "\<forall>k pl. map_of (pinnableByWorkspaceCwd st') k = Some pl \<longrightarrow> pl = []"
      "\<forall>k\<in>insert (cwd w) K \<union> set (map cwd ws). map_of (pinnableByWorkspaceCwd st') k \<noteq> None"
      "workspaces st' = workspaces st1" "disk st' = disk st1"
      "locatorsByIdent_c st' = locatorsByIdent_c st1"
    by blast
  have "findPinnable_loop H opt P (w # ws) st = Inr st'"
    using s(1) st'(1) by (simp add: st1_def)
  moreover have "\<forall>k\<in>K \<union> set (map cwd (w # ws)). map_of (pinnableByWorkspaceCwd st') k \<noteq> None"
    using st'(3) by auto
  ultimately show ?case using st'(2,4,5,6) L W D by auto
qed

text \<open>Only the tables of the project are read after the workspaces are gathered.\<close>

lemma sourcePackage_of_workspaces:
  "sourcePackage_of (P\<lparr>p_workspaces := pws\<rparr>) = sourcePackage_of P"
  by (rule ext) (simp add: sourcePackage_of_def split: option.splits)

lemma candidates_of_workspaces:
  "candidates_of H (P\<lparr>p_workspaces := pws\<rparr>) ex rg lhs = candidates_of H P ex rg lhs"
  by (simp add: candidates_of_def sourcePackage_of_workspaces)

lemma pinTo_of_workspaces:
  "pinTo_of H (P\<lparr>p_workspaces := pws\<rparr>) L ex ref cw rg ih r = pinTo_of H P L ex ref cw rg ih r"
  by (simp add: pinTo_of_def candidates_of_workspaces sourcePackage_of_workspaces Let_def
        cong: option.case_cong sum.case_cong list.case_cong if_cong)

lemma processDependency_workspaces:
  "processDependency H opt (P\<lparr>p_workspaces := pws\<rparr>) L cw e s = processDependency H opt P L cw e s"
  by (simp add: processDependency_def pinTo_of_workspaces Let_def
      cong: option.case_cong sum.case_cong prod.case_cong if_cong)

lemma processDependencies_workspaces:
  "processDependencies H opt (P\<lparr>p_workspaces := pws\<rparr>) L cw es s = processDependencies H opt P L cw es s"
  by (induction es arbitrary: s) (simp_all add: processDependency_workspaces split: sum.splits)

lemma findPinnableInWorkspace_workspaces:
  "findPinnableInWorkspace H opt (P\<lparr>p_workspaces := pws\<rparr>) L w r = findPinnableInWorkspace H opt P L w r"
  by (simp add: findPinnableInWorkspace_def processDependencies_workspaces Let_def
      cong: sum.case_cong if_cong)

lemma findPinnable_loop_workspaces:
  "findPinnable_loop H opt (P\<lparr>p_workspaces := pws\<rparr>) ws st = findPinnable_loop H opt P ws st"
  by (induction ws arbitrary: st) (simp_all add: findPinnableInWorkspace_workspaces split: sum.splits)

lemma createLocatorsByIdentMap_loop_workspaces:
  "createLocatorsByIdentMap_loop (P\<lparr>p_workspaces := pws\<rparr>) rs m = createLocatorsByIdentMap_loop P rs m"
  by (induction rs arbitrary: m) (auto simp add: Let_def split: option.splits)

lemma createLocatorsByIdentMap_workspaces:
  "createLocatorsByIdentMap (P\<lparr>p_workspaces := pws\<rparr>) = createLocatorsByIdentMap P"
  by (simp add: createLocatorsByIdentMap_def createLocatorsByIdentMap_loop_workspaces)

lemma m_name_rewrite_workspace [simp]:
  "m_name (manifest_w (rewrite_workspace PL w)) = m_name (manifest_w w)"
  by (simp add: rewrite_workspace_def rewrite_manifest_def)

lemma relativeCwd_rewrite_workspace [simp]:
  "relativeCwd (rewrite_workspace PL w) = relativeCwd w"
  by (simp add: rewrite_workspace_def)

lemma possibleWorkspaceRefs_of_rewrite [simp]:
  "possibleWorkspaceRefs_of (rewrite_workspace PL w) = possibleWorkspaceRefs_of w"
  unfolding possibleWorkspaceRefs_of_def by simp

lemma include_workspace_rewrite:
  "include_workspace opt given (rewrite_workspace PL w) r = include_workspace opt given w r"
  unfolding include_workspace_def
  by (simp add: Let_def cong: option.case_cong if_cong)

lemma filter_workspaces_rewrite:
  "filter_workspaces opt given ws r = Inr (kept, r') \<Longrightarrow>
   filter_workspaces opt given (map (rewrite_workspace PL) ws) r
     = Inr (map (rewrite_workspace PL) kept, r')"
  by (induction ws arbitrary: kept r)
     (auto simp add: include_workspace_rewrite split: sum.splits prod.splits if_splits)

lemma gatherWorkspaces_rewrite:
  "gatherWorkspaces opt P r = Inr (ws, r') \<Longrightarrow>
   gatherWorkspaces opt (P\<lparr>p_workspaces := map (rewrite_workspace PL) (p_workspaces P)\<rparr>) r
     = Inr (map (rewrite_workspace PL) ws, r')"
  by (auto simp add: gatherWorkspaces_def filter_workspaces_rewrite split: option.splits if_splits)

lemma pinDependencies_Inr:
  assumes "pinDependencies opt st = Inr st'"
  obtains ws r d where
    "pin_workspaces opt (pinnableByWorkspaceCwd st) [] (workspaces st)
       ((log_c st)\<lparr>lines := lines (log_c st) @ [Json (reportablePinsByWorkspaceCwd st)]\<rparr>, disk st)
     = Inr (ws, r, d)"
    "st' = st\<lparr>log_c := r, workspaces := ws, disk := d\<rparr>"
  using assms by (auto simp add: pinDependencies_def Let_def split: sum.splits prod.splits)

text \<open>
  C4. A second run after a completed run plans nothing and changes nothing. The project
  of the second run has the resolution data of the first and, in every workspace, the
  manifest as the first run left it; the disk is the one the first run left. Provided
  that every stored package is stored under its own locator hash, that a version read as
  a range is satisfied by that version and by no other stored one, that no identity is
  twice in a manifest, that the workspaces have distinct directories, and that no entry
  of the manifests the first run left is explicitly included, the second run completes,
  every plan it holds is empty, and the workspaces and the disk are the ones it started
  from.
\<close>

theorem C4_second_run:
  assumes run1: "execute H opt P d = Inr st"
    and wf: "wf_packages P" and ex: "exact_versions H P"
    and keys: "\<forall>w\<in>set (p_workspaces P). keys_ok (manifest_w w)"
    and cwds: "distinct (map cwd (p_workspaces P))"
    and nex: "\<forall>w\<in>set (workspaces st). \<forall>e\<in>set (processed_entries opt (manifest_w w)).
                \<not> explicitlyIncluded_of opt (snd e)"
  shows "\<exists>st2. execute H opt
                 (P\<lparr>p_workspaces :=
                      map (rewrite_workspace (pinnableByWorkspaceCwd st)) (p_workspaces P)\<rparr>)
                 (disk st) = Inr st2
             \<and> (\<forall>cw pl. map_of (pinnableByWorkspaceCwd st2) cw = Some pl \<longrightarrow> pl = [])
             \<and> workspaces st2 = workspaces st \<and> disk st2 = disk st"
proof -
  define P2 where
    "P2 = P\<lparr>p_workspaces := map (rewrite_workspace (pinnableByWorkspaceCwd st)) (p_workspaces P)\<rparr>"
  obtain ws r L stA where
    g1: "gatherWorkspaces opt P empty_report = Inr (ws, r)"
    and i1: "createLocatorsByIdentMap P = Inr L"
    and f1: "findPinnableDependencies H opt P
               \<lparr>log_c = r, workspaces = ws, locatorsByIdent_c = L, pinnableByWorkspaceCwd = [],
                reportablePinsByWorkspaceCwd = [], disk = d\<rparr> = Inr stA"
    and p1: "pinDependencies opt stA = Inr st"
  proof (cases rule: execute_cases [of opt P])
    case (gather e r)
    with run1 show ?thesis by simp
  next
    case (index ws r e)
    with run1 show ?thesis by simp
  next
    case (plan ws r L)
    from run1 plan(3) [of H d] obtain stA where
      "findPinnableDependencies H opt P
               \<lparr>log_c = r, workspaces = ws, locatorsByIdent_c = L, pinnableByWorkspaceCwd = [],
                reportablePinsByWorkspaceCwd = [], disk = d\<rparr> = Inr stA"
      "pinDependencies opt stA = Inr st"
      by (auto split: sum.splits)
    with plan(1,2) show ?thesis by (rule that)
  qed
  define PL where "PL = pinnableByWorkspaceCwd stA"
  from f1 have loop1: "findPinnable_loop H opt P ws
       \<lparr>log_c = r, workspaces = ws, locatorsByIdent_c = L, pinnableByWorkspaceCwd = [],
        reportablePinsByWorkspaceCwd = [], disk = d\<rparr> = Inr stA"
    by (simp add: findPinnableDependencies_def)
  from findPinnable_loop_frame [OF loop1]
  have LA: "locatorsByIdent_c stA = L" and WA: "workspaces stA = ws" and DA: "disk stA = d"
    by simp_all
  from gatherWorkspaces_kept [OF g1] cwds
  have sub: "set ws \<subseteq> set (p_workspaces P)" and dws: "distinct (map cwd ws)" by simp_all
  from findPinnable_loop_plans [OF loop1 dws]
  have plans: "\<forall>w\<in>set ws. \<exists>r s. findPinnableInWorkspace H opt P L w r = Inr s
                 \<and> map_of PL (cwd w) = Some (pinnableInWorkspace s)"
    by (simp add: PL_def)
  from p1 obtain ws' r' d' where
    pw: "pin_workspaces opt PL [] ws
           ((log_c stA)\<lparr>lines := lines (log_c stA) @ [Json (reportablePinsByWorkspaceCwd stA)]\<rparr>, d)
         = Inr (ws', r', d')"
    and st: "st = stA\<lparr>log_c := r', workspaces := ws', disk := d'\<rparr>"
    unfolding PL_def WA [symmetric] DA [symmetric] by (rule pinDependencies_Inr)
  have PLst: "pinnableByWorkspaceCwd st = PL" by (simp add: st PL_def)
  have pre: "\<forall>w\<in>set ws. keys_ok (manifest_w w)
             \<and> (\<exists>pl. map_of PL (cwd w) = Some pl \<and> distinct (map fst pl)
                   \<and> set (map fst pl) \<subseteq> set (map fst (dependencies (manifest_w w)))
                                            \<union> set (map fst (devDependencies (manifest_w w))))"
  proof
    fix w assume w: "w \<in> set ws"
    with sub keys have ok: "keys_ok (manifest_w w)" by blast
    from plans w obtain rw s where s: "findPinnableInWorkspace H opt P L w rw = Inr s"
      "map_of PL (cwd w) = Some (pinnableInWorkspace s)" by blast
    from workspace_plan_keys [OF ok s(1)] s(2) ok
    show "keys_ok (manifest_w w)
             \<and> (\<exists>pl. map_of PL (cwd w) = Some pl \<and> distinct (map fst pl)
                   \<and> set (map fst pl) \<subseteq> set (map fst (dependencies (manifest_w w)))
                                            \<union> set (map fst (devDependencies (manifest_w w))))"
      by blast
  qed
  from pin_workspaces_rewrite [OF pre, of opt "[]"
         "(log_c stA)\<lparr>lines := lines (log_c stA) @ [Json (reportablePinsByWorkspaceCwd stA)]\<rparr>" d] pw
  have ws': "ws' = map (rewrite_workspace PL) ws" by auto
  have Wst: "workspaces st = map (rewrite_workspace PL) ws" by (simp add: st ws')
  have Dst: "disk st = d'" by (simp add: st)
  have P2: "P2 = P\<lparr>p_workspaces := map (rewrite_workspace PL) (p_workspaces P)\<rparr>"
    by (simp add: P2_def PLst)
  have g2: "gatherWorkspaces opt P2 empty_report = Inr (map (rewrite_workspace PL) ws, r)"
    unfolding P2 using g1 by (rule gatherWorkspaces_rewrite)
  have i2: "createLocatorsByIdentMap P2 = Inr L"
    unfolding P2 by (simp add: createLocatorsByIdentMap_workspaces i1)
  define stI where "stI = \<lparr>log_c = r, workspaces = map (rewrite_workspace PL) ws,
       locatorsByIdent_c = L, pinnableByWorkspaceCwd = [],
       reportablePinsByWorkspaceCwd = [], disk = d'\<rparr>"
  have e2: "execute H opt P2 d' =
      (case findPinnableDependencies H opt P2 stI of Inl x \<Rightarrow> Inl x
       | Inr st2 \<Rightarrow> pinDependencies opt st2)"
  proof (cases rule: execute_cases [of opt P2])
    case (gather e r)
    with g2 show ?thesis by simp
  next
    case (index ws r e)
    with i2 show ?thesis by simp
  next
    case (plan ws2 r2 L2)
    with g2 i2 show ?thesis by (simp add: stI_def)
  qed
  have second: "\<forall>w'\<in>set (map (rewrite_workspace PL) ws). \<forall>r2. \<exists>s2.
       findPinnableInWorkspace H opt P (locatorsByIdent_c stI) w' r2 = Inr s2
       \<and> pinnableInWorkspace s2 = []"
  proof (intro ballI allI)
    fix w' r2 assume "w' \<in> set (map (rewrite_workspace PL) ws)"
    then obtain w where w: "w \<in> set ws" and w': "w' = rewrite_workspace PL w" by auto
    from w sub keys have ok: "keys_ok (manifest_w w)" by blast
    from plans w obtain rw s where s: "findPinnableInWorkspace H opt P L w rw = Inr s"
      "map_of PL (cwd w) = Some (pinnableInWorkspace s)" by blast
    have w'eq: "w' = w\<lparr>manifest_w := rewrite_manifest (pinnableInWorkspace s) (manifest_w w)\<rparr>"
      by (simp add: w' rewrite_workspace_def s(2))
    have "w' \<in> set (workspaces st)" using w by (simp add: Wst w')
    with nex have "\<forall>e\<in>set (processed_entries opt (manifest_w w')). \<not> explicitlyIncluded_of opt (snd e)"
      by blast
    then have nex': "\<forall>e\<in>set (processed_entries opt (rewrite_manifest (pinnableInWorkspace s) (manifest_w w))).
                \<not> explicitlyIncluded_of opt (snd e)"
      by (simp add: w'eq)
    from workspace_second_run [OF wf ex ok s(1) nex', of r2]
    show "\<exists>s2. findPinnableInWorkspace H opt P (locatorsByIdent_c stI) w' r2 = Inr s2
       \<and> pinnableInWorkspace s2 = []"
      by (simp add: w'eq stI_def)
  qed
  define stJ where "stJ = stI\<lparr>pinnableByWorkspaceCwd := [], reportablePinsByWorkspaceCwd := []\<rparr>"
  have second': "\<forall>w'\<in>set (map (rewrite_workspace PL) ws). \<forall>r2. \<exists>s2.
       findPinnableInWorkspace H opt P (locatorsByIdent_c stJ) w' r2 = Inr s2
       \<and> pinnableInWorkspace s2 = []"
    using second by (simp add: stJ_def)
  have e0: "\<forall>k pl. map_of (pinnableByWorkspaceCwd stJ) k = Some pl \<longrightarrow> pl = []"
    by (simp add: stJ_def)
  have k0: "\<forall>k\<in>{}. map_of (pinnableByWorkspaceCwd stJ) k \<noteq> None" by simp
  from findPinnable_loop_empty [OF second' e0 k0] obtain stB where
    lB: "findPinnable_loop H opt P (map (rewrite_workspace PL) ws) stJ = Inr stB"
    and eB: "\<forall>k pl. map_of (pinnableByWorkspaceCwd stB) k = Some pl \<longrightarrow> pl = []"
    and kB: "\<forall>k\<in>{} \<union> set (map cwd (map (rewrite_workspace PL) ws)).
               map_of (pinnableByWorkspaceCwd stB) k \<noteq> None"
    and WB: "workspaces stB = workspaces stJ" and DB: "disk stB = disk stJ"
    by blast
  have fB: "findPinnableDependencies H opt P2 stI = Inr stB"
    unfolding P2 using lB
    by (simp add: findPinnableDependencies_def findPinnable_loop_workspaces stJ_def stI_def)
  have WB': "workspaces stB = map (rewrite_workspace PL) ws" by (simp add: WB stJ_def stI_def)
  have DB': "disk stB = d'" by (simp add: DB stJ_def stI_def)
  have allB: "\<forall>w\<in>set (workspaces stB). map_of (pinnableByWorkspaceCwd stB) (cwd w) = Some []"
  proof
    fix w assume "w \<in> set (workspaces stB)"
    then have "cwd w \<in> {} \<union> set (map cwd (map (rewrite_workspace PL) ws))"
      unfolding WB' by (simp only: set_map Un_empty_left) (rule imageI)
    with kB have "map_of (pinnableByWorkspaceCwd stB) (cwd w) \<noteq> None" by (rule bspec)
    then obtain pl where pl: "map_of (pinnableByWorkspaceCwd stB) (cwd w) = Some pl" by blast
    with eB have "pl = []" by blast
    with pl show "map_of (pinnableByWorkspaceCwd stB) (cwd w) = Some []" by simp
  qed
  define r0 where
    "r0 = (log_c stB)\<lparr>lines := lines (log_c stB) @ [Json (reportablePinsByWorkspaceCwd stB)]\<rparr>"
  from pin_workspaces_empty [OF allB, of opt "[]" r0 "disk stB"]
  have "pinDependencies opt stB = Inr (stB\<lparr>log_c := r0, workspaces := workspaces stB, disk := disk stB\<rparr>)"
    by (simp add: pinDependencies_def Let_def r0_def)
  with e2 fB have "execute H opt P2 d' = Inr (stB\<lparr>log_c := r0, workspaces := workspaces stB, disk := disk stB\<rparr>)"
    by simp
  with eB WB' DB' Wst Dst show ?thesis
    unfolding P2_def [symmetric] by (intro exI [of _ "stB\<lparr>log_c := r0, workspaces := workspaces stB, disk := disk stB\<rparr>"]) simp
qed

text \<open>
  C4 does not hold of every completed run. With \<^verbatim>\<open>--include lib:2.3.0\<close> the first run
  pins \<^verbatim>\<open>lib:^2.0.0\<close> to 2.3.0, the highest of the two candidates, and saves the manifest.
  The second run finds \<^verbatim>\<open>lib:2.3.0\<close> explicitly included: both candidates are kept, the
  constant comparator reverses them, and the entry is planned and rewritten to 2.1.0.
\<close>

theorem C4_counterexample:
  "\<not> dryRun include_pinned
   \<and> execute semver_fragment include_pinned lib_project original_disk
       = Inr (final_state (execute semver_fragment include_pinned lib_project original_disk))
   \<and> workspaces (final_state (execute semver_fragment include_pinned lib_project original_disk))
       = [lib_pinned_to ''2.3.0'']
   \<and> disk (final_state (execute semver_fragment include_pinned lib_project original_disk))
       = [(''/A/package.json'', manifest_w (lib_pinned_to ''2.3.0''))]
   \<and> execute semver_fragment include_pinned (lib_project\<lparr>p_workspaces := [lib_pinned_to ''2.3.0'']\<rparr>)
         [(''/A/package.json'', manifest_w (lib_pinned_to ''2.3.0''))]
       = Inr (final_state (execute semver_fragment include_pinned
                (lib_project\<lparr>p_workspaces := [lib_pinned_to ''2.3.0'']\<rparr>)
                [(''/A/package.json'', manifest_w (lib_pinned_to ''2.3.0''))]))
   \<and> pinnableByWorkspaceCwd (final_state (execute semver_fragment include_pinned
                (lib_project\<lparr>p_workspaces := [lib_pinned_to ''2.3.0'']\<rparr>)
                [(''/A/package.json'', manifest_w (lib_pinned_to ''2.3.0''))]))
       = [(''/A'', [(''lib'', pkg ''Y'' ''2.1.0'')])]
   \<and> disk (final_state (execute semver_fragment include_pinned
                (lib_project\<lparr>p_workspaces := [lib_pinned_to ''2.3.0'']\<rparr>)
                [(''/A/package.json'', manifest_w (lib_pinned_to ''2.3.0''))]))
       = [(''/A/package.json'', manifest_w (lib_pinned_to ''2.1.0''))]"
  by code_simp

text \<open>
  The witness for C4: without flags the first run pins \<^verbatim>\<open>lib:^2.0.0\<close> to 2.3.0; the second
  run plans nothing.
\<close>

theorem C4_witness:
  "execute semver_fragment no_flags lib_project original_disk = Inr lib_after_run
   \<and> pinnableByWorkspaceCwd lib_after_run = [(''/A'', [(''lib'', pkg ''X'' ''2.3.0'')])]
   \<and> workspaces lib_after_run = [lib_pinned_to ''2.3.0'']
   \<and> disk lib_after_run = [(''/A/package.json'', manifest_w (lib_pinned_to ''2.3.0''))]
   \<and> wf_packages lib_project \<and> exact_versions semver_fragment lib_project
   \<and> keys_ok (manifest_w (lib_pinned_to ''^2.0.0''))
   \<and> distinct (map cwd (p_workspaces lib_project))
   \<and> \<not> explicitlyIncluded_of no_flags (dep ''lib'' ''2.3.0'')
   \<and> (\<exists>st2. execute semver_fragment no_flags
                 (lib_project\<lparr>p_workspaces := [lib_pinned_to ''2.3.0'']\<rparr>)
                 [(''/A/package.json'', manifest_w (lib_pinned_to ''2.3.0''))] = Inr st2
             \<and> (\<forall>cw pl. map_of (pinnableByWorkspaceCwd st2) cw = Some pl \<longrightarrow> pl = [])
             \<and> workspaces st2 = [lib_pinned_to ''2.3.0'']
             \<and> disk st2 = [(''/A/package.json'', manifest_w (lib_pinned_to ''2.3.0''))])"
proof -
  have 1: "execute semver_fragment no_flags lib_project original_disk = Inr lib_after_run"
    unfolding lib_after_run_def by code_simp
  have 2: "pinnableByWorkspaceCwd lib_after_run = [(''/A'', [(''lib'', pkg ''X'' ''2.3.0'')])]"
    unfolding lib_after_run_def by code_simp
  have 3: "workspaces lib_after_run = [lib_pinned_to ''2.3.0'']"
    unfolding lib_after_run_def by code_simp
  have 4: "disk lib_after_run = [(''/A/package.json'', manifest_w (lib_pinned_to ''2.3.0''))]"
    unfolding lib_after_run_def by code_simp
  have 5: "wf_packages lib_project"
    by (simp add: wf_packages_def lib_project_def pkg_def)
  have "frag_satisfies ''2.3.0'' ''2.3.0'' \<and> \<not> frag_satisfies ''2.1.0'' ''2.3.0''
      \<and> frag_satisfies ''2.1.0'' ''2.1.0'' \<and> \<not> frag_satisfies ''2.3.0'' ''2.1.0''
      \<and> \<not> has_line_terminator ''2.3.0'' \<and> \<not> has_line_terminator ''2.1.0''"
    by code_simp
  then have 6: "exact_versions semver_fragment lib_project"
    by (auto simp add: exact_versions_def lib_project_def pkg_def semver_fragment_def split: if_splits)
  have 7: "keys_ok (manifest_w (lib_pinned_to ''^2.0.0''))"
    by (simp add: keys_ok_def lib_pinned_to_def one_workspace_def)
  have k7: "\<forall>w\<in>set (p_workspaces lib_project). keys_ok (manifest_w w)"
    by (simp add: keys_ok_def lib_project_def one_workspace_def)
  have 8: "distinct (map cwd (p_workspaces lib_project))"
    by (simp add: lib_project_def)
  have 9: "\<not> explicitlyIncluded_of no_flags (dep ''lib'' ''2.3.0'')"
    by (simp add: explicitlyIncluded_of_def isDependencyExplicitlyIncluded_def no_flags_def)
  have e9: "\<forall>w\<in>set (workspaces lib_after_run). \<forall>e\<in>set (processed_entries no_flags (manifest_w w)).
                \<not> explicitlyIncluded_of no_flags (snd e)"
    using 9 unfolding 3
    by (simp add: lib_pinned_to_def one_workspace_def processed_entries_def no_flags_def)
  have P2: "map (rewrite_workspace (pinnableByWorkspaceCwd lib_after_run)) (p_workspaces lib_project)
      = [lib_pinned_to ''2.3.0'']"
    unfolding 2
    by (simp add: lib_project_def rewrite_workspace_def rewrite_manifest_def rewrite_map_def
          one_workspace_def lib_pinned_to_def dep_def pkg_def)
  from C4_second_run [OF 1 5 6 k7 8 e9]
  have "\<exists>st2. execute semver_fragment no_flags
                 (lib_project\<lparr>p_workspaces := [lib_pinned_to ''2.3.0'']\<rparr>)
                 [(''/A/package.json'', manifest_w (lib_pinned_to ''2.3.0''))] = Inr st2
             \<and> (\<forall>cw pl. map_of (pinnableByWorkspaceCwd st2) cw = Some pl \<longrightarrow> pl = [])
             \<and> workspaces st2 = [lib_pinned_to ''2.3.0'']
             \<and> disk st2 = [(''/A/package.json'', manifest_w (lib_pinned_to ''2.3.0''))]"
    unfolding P2 3 4 .
  with 1 2 3 4 5 6 7 8 9 show ?thesis by blast
qed

end
